theory Spec2Isabelle
  imports Main "HOL-Library.List_Lexorder" "HOL-Library.Char_ord"
begin

section \<open>Data of \<open>github-deploy.py\<close>\<close>

text \<open>
  The script is one sequential \<open>main\<close>. Everything it talks to (command line, the YAML
  file, the effective user id, the netrc store, the HTTP API, \<open>sudo\<close>, the temporary
  directory, the standard library's \<open>fnmatch\<close>) is gathered in an environment record;
  everything it changes (the observable effects in order and the temporary files on disk)
  is a world record that is passed along. An uncaught Python exception is a value
  \<open>Inl e\<close>; the world at the moment of the raise is kept.
\<close>

type_synonym bytes = string

text \<open>One element of \<open>resp_json["artifacts"]\<close>; \<open>head_branch\<close> is
  \<open>art["workflow_run"]["head_branch"]\<close>. Timestamps are the API's strings and are
  compared as Python compares \<open>str\<close>: lexicographically, character by character.\<close>

record artifact_record =
  id_art :: nat
  name :: string
  updated_at :: string
  head_branch :: string

text \<open>A decoded listing response; a key that is absent is \<open>None\<close>.\<close>

record page_json =
  total_count :: "int option"
  artifacts :: "artifact_record list option"

text \<open>A member of the downloaded archive, in the order of \<open>infolist()\<close>.\<close>

record zip_entry =
  filename :: string
  payload :: bytes

datatype http_body = Json page_json | Zip "zip_entry list" | Opaque

text \<open>The parsed YAML document. \<open>None\<close> is an absent key.\<close>

record config =
  allow_root :: "bool option"
  repo :: "string option"
  artifact :: "string option"
  branch :: "string option"
  zip_location :: "string option"
  copy_files :: "(string \<times> string) list"
  copy_patterns :: "(string \<times> string) list"
  systemd_services :: "string list"

text \<open>Exceptions. \<open>NoMatchError\<close> is the error the specification names for an empty
  selection; no path of the script raises it.\<close>

datatype error =
    SystemExit int
  | IndexError
  | KeyError string
  | TypeError
  | ConfigLoadError
  | ConnectionError
  | JSONDecodeError
  | BadZipFile
  | FileExistsError
  | FileNotFoundError
  | OSError
  | ValueError
  | NoMatchError

text \<open>Observable effects, oldest first. \<open>Sleep_ms\<close> carries the delay in milliseconds.\<close>

datatype event =
    Print string
  | HttpGet string "string \<times> string"
  | Run "string list" int
  | WriteFile string http_body
  | Sleep_ms nat

record world =
  trace :: "event list"
  tmpfs :: "(string \<times> bytes) list"

record env =
  argv :: "string list"
  read_config :: "string \<Rightarrow> error + config"
  geteuid :: nat
  get_netrc_auth :: "string \<Rightarrow> (string \<times> string) option"
  http :: "string \<Rightarrow> error + http_body"
  exec :: "string list \<Rightarrow> error + int"
  writable :: "string \<Rightarrow> bool"
  tmp_name :: "string list \<Rightarrow> string"
  fnmatch :: "string \<Rightarrow> string \<Rightarrow> bool"

type_synonym 'a io = "world \<Rightarrow> (error + 'a) \<times> world"

section \<open>Library calls\<close>

definition emit :: "event \<Rightarrow> world \<Rightarrow> world" where
  "emit e w = w\<lparr>trace := trace w @ [e]\<rparr>"

text \<open>\<open>str(n)\<close> for a non-negative integer.\<close>

fun str_nat :: "nat \<Rightarrow> string" where
  "str_nat n =
     (if n < 10 then [char_of (48 + n)]
      else str_nat (n div 10) @ [char_of (48 + n mod 10)])"

declare str_nat.simps [simp del]

text \<open>\<open>subprocess.run(args)\<close> without \<open>check\<close>: the exit status is returned and never
  raises. An exception comes only from the spawn itself, which the environment decides:
  \<open>OSError\<close> when the program cannot be executed, \<open>ValueError\<close> when an argument holds
  a NUL character. A command that was not spawned leaves no event.\<close>

definition subprocess_run :: "env \<Rightarrow> string list \<Rightarrow> int io" where
  "subprocess_run en args w =
     (case exec en args of
        Inl e \<Rightarrow> (Inl e, w)
      | Inr status \<Rightarrow> (Inr status, emit (Run args status) w))"

text \<open>Lines 20 to 32. Unpacking the result of \<open>get_netrc_auth\<close> raises when there is no
  entry for the host. The event stands for the GET with the Basic authorization header
  built from the credentials and the fixed Accept header.\<close>

definition request :: "env \<Rightarrow> string \<Rightarrow> http_body io" where
  "request en url w =
     (case get_netrc_auth en url of
        None \<Rightarrow> (Inl TypeError, w)
      | Some cred \<Rightarrow>
          (case http en url of
             Inl e \<Rightarrow> (Inl e, emit (HttpGet url cred) w)
           | Inr body \<Rightarrow> (Inr body, emit (HttpGet url cred) w)))"

definition json :: "http_body \<Rightarrow> error + page_json" where
  "json b = (case b of Json j \<Rightarrow> Inr j | Zip z \<Rightarrow> Inl JSONDecodeError | Opaque \<Rightarrow> Inl JSONDecodeError)"

definition ZipFile :: "http_body \<Rightarrow> error + zip_entry list" where
  "ZipFile b = (case b of Zip z \<Rightarrow> Inr z | Json j \<Rightarrow> Inl BadZipFile | Opaque \<Rightarrow> Inl BadZipFile)"

text \<open>\<open>ZipInfo.is_dir()\<close>: the name ends with a slash.\<close>

definition is_dir :: "zip_entry \<Rightarrow> bool" where
  "is_dir e = (filename e \<noteq> [] \<and> last (filename e) = CHR ''/'')"

text \<open>\<open>ZipFile.open(name)\<close>: the name is looked up in the archive's name table, where a
  later member of the same name replaces an earlier one.\<close>

definition zip_open :: "zip_entry list \<Rightarrow> string \<Rightarrow> error + bytes" where
  "zip_open z n =
     (let es = filter (\<lambda>e. filename e = n) z
      in if es = [] then Inl (KeyError n) else Inr (payload (last es)))"

text \<open>\<open>os.path.basename\<close> and the two-argument \<open>os.path.join\<close> of \<open>posixpath\<close>.\<close>

definition basename :: "string \<Rightarrow> string" where
  "basename p = rev (takeWhile (\<lambda>c. c \<noteq> CHR ''/'') (rev p))"

definition path_join :: "string \<Rightarrow> string \<Rightarrow> string" where
  "path_join a b =
     (if b \<noteq> [] \<and> hd b = CHR ''/'' then b
      else if a = [] \<or> last a = CHR ''/'' then a @ b
      else a @ ''/'' @ b)"

text \<open>\<open>tempfile.NamedTemporaryFile(delete=False)\<close>, filled with the given bytes and
  closed: a file is created exclusively, so a name that is already taken is never
  returned.\<close>

definition named_temporary_file :: "env \<Rightarrow> bytes \<Rightarrow> string io" where
  "named_temporary_file en content w =
     (let ntf_name = tmp_name en (map fst (tmpfs w))
      in if ntf_name \<in> set (map fst (tmpfs w)) then (Inl FileExistsError, w)
         else (Inr ntf_name, w\<lparr>tmpfs := tmpfs w @ [(ntf_name, content)]\<rparr>))"

definition unlink :: "string \<Rightarrow> unit io" where
  "unlink n w =
     (if n \<in> set (map fst (tmpfs w))
      then (Inr (), w\<lparr>tmpfs := filter (\<lambda>f. fst f \<noteq> n) (tmpfs w)\<rparr>)
      else (Inl FileNotFoundError, w))"

text \<open>Assignment \<open>d[k] = v\<close> on an insertion-ordered \<open>dict\<close>: an existing key keeps its
  place and gets the new value, a new key goes to the end.\<close>

fun dict_set :: "('k \<times> 'v) list \<Rightarrow> 'k \<Rightarrow> 'v \<Rightarrow> ('k \<times> 'v) list" where
  "dict_set [] k v = [(k, v)]"
| "dict_set ((k', v') # d) k v =
     (if k' = k then (k', v) # d else (k', v') # dict_set d k v)"

text \<open>\<open>list.sort(key=..., reverse=True)\<close>: the list is reversed, sorted stably in
  ascending order and reversed again, so equal keys keep their original order.\<close>

definition sort_reverse :: "('a \<Rightarrow> 'k::linorder) \<Rightarrow> 'a list \<Rightarrow> 'a list" where
  "sort_reverse key xs = rev (sort_key key (rev xs))"

section \<open>The phases of \<open>main\<close>\<close>

subsection \<open>Lines 37 to 52: configuration and the root check\<close>

definition startup :: "env \<Rightarrow> config io" where
  "startup en w =
     (if length (argv en) \<noteq> 2 then
        (if argv en = [] then (Inl IndexError, w)
         else (Inl (SystemExit 1), emit (Print (''Usage: '' @ hd (argv en) @ '' CONFIG'')) w))
      else
        (case read_config en (argv en ! 1) of
           Inl e \<Rightarrow> (Inl e, w)
         | Inr c \<Rightarrow>
             if allow_root c \<noteq> Some True \<and> geteuid en = 0 then
               (Inl (SystemExit 1), emit (Print ''you aren't supposed to run this as root'') w)
             else
               (case subprocess_run en [''sudo'', ''-v''] w of
                  (Inl e, w1) \<Rightarrow> (Inl e, w1)
                | (Inr status, w1) \<Rightarrow> (Inr c, emit (Print ''here we go'') w1))))"

subsection \<open>Lines 55 to 66: the artifact listing\<close>

definition artifacts_url :: "string \<Rightarrow> string" where
  "artifacts_url r = ''https://api.github.com/repos/'' @ r @ ''/actions/artifacts''"

definition page_url :: "string \<Rightarrow> nat \<Rightarrow> string" where
  "page_url r page = artifacts_url r @ ''?page='' @ str_nat page"

text \<open>The \<open>while\<close> loop. It has no bound of its own, so it is a partial function:
  \<open>None\<close> is a run that requests pages forever.\<close>

partial_function (option) fetch_loop ::
  "env \<Rightarrow> string \<Rightarrow> int \<Rightarrow> nat \<Rightarrow> artifact_record list \<Rightarrow> world
     \<Rightarrow> ((error + artifact_record list) \<times> world) option" where
  "fetch_loop en r artifact_count page all_artifacts w =
     (if int (length all_artifacts) < artifact_count then
        (case request en (page_url r page) w of
           (Inl e, w1) \<Rightarrow> Some (Inl e, w1)
         | (Inr response, w1) \<Rightarrow>
             (case json response of
                Inl e \<Rightarrow> Some (Inl e, w1)
              | Inr resp_json \<Rightarrow>
                  (case artifacts resp_json of
                     None \<Rightarrow> Some (Inl (KeyError ''artifacts''), w1)
                   | Some extra \<Rightarrow>
                       fetch_loop en r artifact_count (page + 1) (all_artifacts @ extra) w1)))
      else Some (Inr all_artifacts, w))"

declare fetch_loop.simps [code]

definition list_artifacts ::
  "env \<Rightarrow> config \<Rightarrow> world \<Rightarrow> ((error + artifact_record list) \<times> world) option" where
  "list_artifacts en c w =
     (case repo c of
        None \<Rightarrow> Some (Inl (KeyError ''repo''), w)
      | Some r \<Rightarrow>
          (case request en (artifacts_url r) w of
             (Inl e, w1) \<Rightarrow> Some (Inl e, w1)
           | (Inr response, w1) \<Rightarrow>
               (case json response of
                  Inl e \<Rightarrow> Some (Inl e, w1)
                | Inr resp_json \<Rightarrow>
                    (case total_count resp_json of
                       None \<Rightarrow> Some (Inl (KeyError ''total_count''), w1)
                     | Some artifact_count \<Rightarrow>
                         (case artifacts resp_json of
                            None \<Rightarrow> Some (Inl (KeyError ''artifacts''), w1)
                          | Some all_artifacts \<Rightarrow>
                              fetch_loop en r artifact_count 2 all_artifacts w1)))))"

subsection \<open>Lines 69 to 83: filter, sort, take the first\<close>

definition want_branch :: "config \<Rightarrow> string" where
  "want_branch c = (case branch c of None \<Rightarrow> [] | Some b \<Rightarrow> b)"

text \<open>The comprehension reads \<open>config["artifact"]\<close> once per record, so a missing key
  raises only when there is a record to test.\<close>

definition wanted_artifacts :: "config \<Rightarrow> artifact_record list \<Rightarrow> error + artifact_record list" where
  "wanted_artifacts c all_artifacts =
     (if all_artifacts = [] then Inr []
      else
        (case artifact c of
           None \<Rightarrow> Inl (KeyError ''artifact'')
         | Some a \<Rightarrow>
             Inr (filter (\<lambda>art. name art = a
                     \<and> (want_branch c = [] \<or> head_branch art = want_branch c))
                   all_artifacts)))"

definition freshest :: "artifact_record list \<Rightarrow> error + artifact_record" where
  "freshest wanted =
     (case sort_reverse updated_at wanted of
        [] \<Rightarrow> Inl IndexError
      | art # rest \<Rightarrow> Inr art)"

definition select_artifact :: "config \<Rightarrow> artifact_record list \<Rightarrow> error + artifact_record" where
  "select_artifact c all_artifacts =
     (case wanted_artifacts c all_artifacts of
        Inl e \<Rightarrow> Inl e
      | Inr wanted \<Rightarrow> freshest wanted)"

subsection \<open>Lines 83 to 91: the download\<close>

definition zip_url :: "string \<Rightarrow> nat \<Rightarrow> string" where
  "zip_url r i = artifacts_url r @ ''/'' @ str_nat i @ ''/zip''"

definition write_file :: "env \<Rightarrow> string \<Rightarrow> http_body \<Rightarrow> unit io" where
  "write_file en path content w =
     (if writable en path then (Inr (), emit (WriteFile path content) w) else (Inl OSError, w))"

definition download :: "env \<Rightarrow> config \<Rightarrow> artifact_record \<Rightarrow> zip_entry list io" where
  "download en c art w =
     (case repo c of
        None \<Rightarrow> (Inl (KeyError ''repo''), w)
      | Some r \<Rightarrow>
          (case request en (zip_url r (id_art art)) w of
             (Inl e, w1) \<Rightarrow> (Inl e, w1)
           | (Inr response_zip_bytes, w1) \<Rightarrow>
               (case (case zip_location c of
                        None \<Rightarrow> (Inr (), w1)
                      | Some path \<Rightarrow> write_file en path response_zip_bytes w1) of
                  (Inl e, w2) \<Rightarrow> (Inl e, w2)
                | (Inr u, w2) \<Rightarrow>
                    (case ZipFile response_zip_bytes of
                       Inl e \<Rightarrow> (Inl e, w2)
                     | Inr response_zip \<Rightarrow> (Inr response_zip, w2)))))"

subsection \<open>Lines 93 to 135: extraction into temporary files\<close>

text \<open>A \<open>copy-files\<close> entry is the pair (archive-path, target-path), a \<open>copy-patterns\<close>
  entry the pair (pattern, target-dir). The member is read to its end in blocks of 4 MiB
  and written to the temporary file; the model writes the same bytes at once.\<close>

fun copy_files_loop ::
  "env \<Rightarrow> zip_entry list \<Rightarrow> (string \<times> string) list \<Rightarrow> (string \<times> string) list
     \<Rightarrow> (string \<times> string) list io" where
  "copy_files_loop en z [] temp_to_target w = (Inr temp_to_target, w)"
| "copy_files_loop en z (file_config # rest) temp_to_target w =
     (case zip_open z (fst file_config) of
        Inl e \<Rightarrow> (Inl e, w)
      | Inr binary_file \<Rightarrow>
          (case named_temporary_file en binary_file w of
             (Inl e, w1) \<Rightarrow> (Inl e, w1)
           | (Inr ntf_name, w1) \<Rightarrow>
               copy_files_loop en z rest
                 (dict_set temp_to_target ntf_name (snd file_config)) w1))"

text \<open>The inner loop over \<open>response_zip.infolist()\<close> for one pattern rule.\<close>

fun zip_entries_loop ::
  "env \<Rightarrow> zip_entry list \<Rightarrow> string \<times> string \<Rightarrow> zip_entry list \<Rightarrow> (string \<times> string) list
     \<Rightarrow> (string \<times> string) list io" where
  "zip_entries_loop en z pattern_config [] temp_to_target w = (Inr temp_to_target, w)"
| "zip_entries_loop en z pattern_config (zip_entry # rest) temp_to_target w =
     (if is_dir zip_entry then zip_entries_loop en z pattern_config rest temp_to_target w
      else if \<not> fnmatch en (filename zip_entry) (fst pattern_config)
        then zip_entries_loop en z pattern_config rest temp_to_target w
      else
        (case zip_open z (filename zip_entry) of
           Inl e \<Rightarrow> (Inl e, w)
         | Inr binary_file \<Rightarrow>
             (case named_temporary_file en binary_file w of
                (Inl e, w1) \<Rightarrow> (Inl e, w1)
              | (Inr ntf_name, w1) \<Rightarrow>
                  zip_entries_loop en z pattern_config rest
                    (dict_set temp_to_target ntf_name
                       (path_join (snd pattern_config) (basename (filename zip_entry))))
                    w1)))"

fun copy_patterns_loop ::
  "env \<Rightarrow> zip_entry list \<Rightarrow> (string \<times> string) list \<Rightarrow> (string \<times> string) list
     \<Rightarrow> (string \<times> string) list io" where
  "copy_patterns_loop en z [] temp_to_target w = (Inr temp_to_target, w)"
| "copy_patterns_loop en z (pattern_config # rest) temp_to_target w =
     (case zip_entries_loop en z pattern_config z temp_to_target w of
        (Inl e, w1) \<Rightarrow> (Inl e, w1)
      | (Inr d, w1) \<Rightarrow> copy_patterns_loop en z rest d w1)"

definition extract_files :: "env \<Rightarrow> config \<Rightarrow> zip_entry list \<Rightarrow> (string \<times> string) list io" where
  "extract_files en c z w =
     (case copy_files_loop en z (copy_files c) [] w of
        (Inl e, w1) \<Rightarrow> (Inl e, w1)
      | (Inr d, w1) \<Rightarrow> copy_patterns_loop en z (copy_patterns c) d w1)"

subsection \<open>Lines 137 to 157: stop, copy, start, clean up, report\<close>

fun run_each :: "env \<Rightarrow> ('a \<Rightarrow> string list) \<Rightarrow> 'a list \<Rightarrow> unit io" where
  "run_each en cmd [] w = (Inr (), w)"
| "run_each en cmd (x # xs) w =
     (case subprocess_run en (cmd x) w of
        (Inl e, w1) \<Rightarrow> (Inl e, w1)
      | (Inr status, w1) \<Rightarrow> run_each en cmd xs w1)"

fun unlink_each :: "string list \<Rightarrow> unit io" where
  "unlink_each [] w = (Inr (), w)"
| "unlink_each (n # ns) w =
     (case unlink n w of
        (Inl e, w1) \<Rightarrow> (Inl e, w1)
      | (Inr u, w1) \<Rightarrow> unlink_each ns w1)"

definition stop_cmd :: "string \<Rightarrow> string list" where
  "stop_cmd service = [''sudo'', ''systemctl'', ''stop'', service]"

definition cp_cmd :: "string \<times> string \<Rightarrow> string list" where
  "cp_cmd m = [''sudo'', ''cp'', fst m, snd m]"

definition start_cmd :: "string \<Rightarrow> string list" where
  "start_cmd service = [''sudo'', ''systemctl'', ''start'', service]"

definition status_cmd :: "string \<Rightarrow> string list" where
  "status_cmd service = [''sudo'', ''env'', ''PAGER='', ''systemctl'', ''status'', service]"

definition report :: "env \<Rightarrow> string list \<Rightarrow> unit io" where
  "report en services w =
     (if services \<noteq> [] then run_each en status_cmd services (emit (Sleep_ms 1500) w)
      else (Inr (), w))"

definition deploy :: "env \<Rightarrow> config \<Rightarrow> (string \<times> string) list \<Rightarrow> unit io" where
  "deploy en c temp_to_target w =
     (case run_each en stop_cmd (systemd_services c) w of
        (Inl e, w1) \<Rightarrow> (Inl e, w1)
      | (Inr u1, w1) \<Rightarrow>
          (case run_each en cp_cmd temp_to_target w1 of
             (Inl e, w2) \<Rightarrow> (Inl e, w2)
           | (Inr u2, w2) \<Rightarrow>
               (case run_each en start_cmd (systemd_services c) w2 of
                  (Inl e, w3) \<Rightarrow> (Inl e, w3)
                | (Inr u3, w3) \<Rightarrow>
                    (case unlink_each (map fst temp_to_target) w3 of
                       (Inl e, w4) \<Rightarrow> (Inl e, w4)
                     | (Inr u4, w4) \<Rightarrow> report en (systemd_services c) w4))))"

subsection \<open>The whole run\<close>

definition after_listing :: "env \<Rightarrow> config \<Rightarrow> artifact_record list \<Rightarrow> unit io" where
  "after_listing en c all_artifacts w =
     (case select_artifact c all_artifacts of
        Inl e \<Rightarrow> (Inl e, w)
      | Inr art \<Rightarrow>
          (case download en c art w of
             (Inl e, w1) \<Rightarrow> (Inl e, w1)
           | (Inr response_zip, w1) \<Rightarrow>
               (case extract_files en c response_zip w1 of
                  (Inl e, w2) \<Rightarrow> (Inl e, w2)
                | (Inr temp_to_target, w2) \<Rightarrow> deploy en c temp_to_target w2)))"

text \<open>\<open>None\<close> is a run that never ends (the listing loop).\<close>

definition main :: "env \<Rightarrow> world \<Rightarrow> ((error + unit) \<times> world) option" where
  "main en w =
     (case startup en w of
        (Inl e, w1) \<Rightarrow> Some (Inl e, w1)
      | (Inr c, w1) \<Rightarrow>
          (case list_artifacts en c w1 of
             None \<Rightarrow> None
           | Some (Inl e, w2) \<Rightarrow> Some (Inl e, w2)
           | Some (Inr all_artifacts, w2) \<Rightarrow> Some (after_listing en c all_artifacts w2)))"

text \<open>The status the process ends with: 0 after a normal return, the argument of
  \<open>sys.exit\<close>, and 1 after any other uncaught exception.\<close>

definition exit_status :: "error + unit \<Rightarrow> int" where
  "exit_status r = (case r of Inr u \<Rightarrow> 0 | Inl (SystemExit n) \<Rightarrow> n | Inl e \<Rightarrow> 1)"

subsection \<open>A matcher for the examples\<close>

text \<open>What \<open>fnmatch\<close> computes on POSIX for a pattern without brackets: \<open>*\<close> stands for
  any run of characters, the slash included, \<open>?\<close> for any one character, and every other
  character for itself, case-sensitively. It instantiates the \<open>fnmatch\<close> field of the
  environment in the examples; the general statements hold for any matcher.\<close>

fun wildcard_match :: "string \<Rightarrow> string \<Rightarrow> bool" where
  "wildcard_match [] [] = True"
| "wildcard_match (c # s) [] = False"
| "wildcard_match [] (p # ps) = (p = CHR ''*'' \<and> wildcard_match [] ps)"
| "wildcard_match (c # s) (p # ps) =
     (if p = CHR ''*'' then wildcard_match (c # s) ps \<or> wildcard_match s (p # ps)
      else (p = CHR ''?'' \<or> p = c) \<and> wildcard_match s ps)"

section \<open>Notions the statements use\<close>

text \<open>The members a pattern rule is to stage: those that are not directories and
  whose whole name matches, in the order of the archive; and the destination of one.\<close>

definition matching_entries :: "env \<Rightarrow> zip_entry list \<Rightarrow> string \<Rightarrow> zip_entry list" where
  "matching_entries en z pattern =
     filter (\<lambda>e. \<not> is_dir e \<and> fnmatch en (filename e) pattern) z"

definition pattern_target :: "string \<times> string \<Rightarrow> zip_entry \<Rightarrow> string" where
  "pattern_target pattern_config e = path_join (snd pattern_config) (basename (filename e))"

text \<open>The destinations in the order the specification gives for the recorded mapping:
  the explicit files first, then rule by rule, each rule in archive order.\<close>

definition expected_targets :: "env \<Rightarrow> config \<Rightarrow> zip_entry list \<Rightarrow> string list" where
  "expected_targets en c z =
     map snd (copy_files c)
     @ concat (map (\<lambda>pc. map (pattern_target pc) (matching_entries en z (fst pc)))
                 (copy_patterns c))"

text \<open>The event a command leaves when it is spawned.\<close>

definition ran :: "env \<Rightarrow> string list \<Rightarrow> event" where
  "ran en args = Run args (case exec en args of Inr status \<Rightarrow> status | Inl e \<Rightarrow> 0)"

text \<open>The events of the status phase: the delay and the status queries.\<close>

definition is_report :: "event \<Rightarrow> bool" where
  "is_report e =
     (case e of
        Sleep_ms n \<Rightarrow> True
      | Run args status \<Rightarrow> take 5 args = [''sudo'', ''env'', ''PAGER='', ''systemctl'', ''status'']
      | Print s \<Rightarrow> False
      | HttpGet url cred \<Rightarrow> False
      | WriteFile path content \<Rightarrow> False)"

section \<open>Example inputs\<close>

definition ex_art :: "nat \<Rightarrow> string \<Rightarrow> string \<Rightarrow> string \<Rightarrow> artifact_record" where
  "ex_art i n t b = \<lparr>id_art = i, name = n, updated_at = t, head_branch = b\<rparr>"

definition ex_wanted :: "artifact_record list" where
  "ex_wanted =
     [ex_art 1 ''app'' ''2024-05-01T10:00:00Z'' ''main'',
      ex_art 2 ''app'' ''2024-05-03T10:00:00Z'' ''main'',
      ex_art 3 ''app'' ''2024-05-03T10:00:00Z'' ''dev'',
      ex_art 4 ''app'' ''2024-05-02T10:00:00Z'' ''main'']"

definition ex_zip :: "zip_entry list" where
  "ex_zip =
     [\<lparr>filename = ''bin/'', payload = []\<rparr>,
      \<lparr>filename = ''bin/app'', payload = ''ELF''\<rparr>,
      \<lparr>filename = ''lib/x.so'', payload = ''X''\<rparr>,
      \<lparr>filename = ''lib/y.txt'', payload = ''Y''\<rparr>,
      \<lparr>filename = ''lib/sub/z.so'', payload = ''Z''\<rparr>,
      \<lparr>filename = ''x.so'', payload = ''T''\<rparr>]"

definition ex_config :: config where
  "ex_config =
     \<lparr>allow_root = None, repo = Some ''acme/app'', artifact = Some ''app'',
      branch = Some ''main'', zip_location = Some ''/var/tmp/app.zip'',
      copy_files = [(''bin/app'', ''/opt/app/app'')],
      copy_patterns = [(''*.so'', ''/opt/app/lib'')],
      systemd_services = [''app.service'', ''app-worker.service'']\<rparr>"

definition ex_read_config :: "string \<Rightarrow> error + config" where
  "ex_read_config path = (if path = ''deploy.yaml'' then Inr ex_config else Inl ConfigLoadError)"

definition ex_netrc :: "string \<Rightarrow> (string \<times> string) option" where
  "ex_netrc url = Some (''deploy-bot'', ''token'')"

definition ex_page1 :: "artifact_record list" where
  "ex_page1 =
     [ex_art 1 ''app'' ''2024-05-01T10:00:00Z'' ''main'',
      ex_art 2 ''app'' ''2024-05-03T10:00:00Z'' ''main'']"

definition ex_page2 :: "artifact_record list" where
  "ex_page2 =
     [ex_art 3 ''app'' ''2024-05-03T10:00:00Z'' ''dev'',
      ex_art 4 ''docs'' ''2024-05-04T10:00:00Z'' ''main'']"

definition ex_page3 :: "artifact_record list" where
  "ex_page3 = [ex_art 5 ''app'' ''2024-05-03T10:00:00Z'' ''main'']"

definition ex_http :: "string \<Rightarrow> error + http_body" where
  "ex_http url =
     (if url = artifacts_url ''acme/app''
        then Inr (Json \<lparr>total_count = Some 5, artifacts = Some ex_page1\<rparr>)
      else if url = page_url ''acme/app'' 2
        then Inr (Json \<lparr>total_count = Some 5, artifacts = Some ex_page2\<rparr>)
      else if url = page_url ''acme/app'' 3
        then Inr (Json \<lparr>total_count = Some 5, artifacts = Some ex_page3\<rparr>)
      else if url = zip_url ''acme/app'' 2 then Inr (Zip ex_zip)
      else Inl ConnectionError)"

text \<open>Every \<open>cp\<close> fails with status 1, every other command succeeds.\<close>

definition ex_exec :: "string list \<Rightarrow> error + int" where
  "ex_exec args = (if take 2 args = [''sudo'', ''cp''] then Inr 1 else Inr 0)"

definition ex_writable :: "string \<Rightarrow> bool" where
  "ex_writable path = True"

definition ex_tmp_name :: "string list \<Rightarrow> string" where
  "ex_tmp_name existing = ''/tmp/tmp'' @ replicate (length existing) (CHR ''a'')"

definition ex_env :: env where
  "ex_env =
     \<lparr>argv = [''github-deploy.py'', ''deploy.yaml''], read_config = ex_read_config,
      geteuid = 1000, get_netrc_auth = ex_netrc, http = ex_http, exec = ex_exec,
      writable = ex_writable, tmp_name = ex_tmp_name, fnmatch = wildcard_match\<rparr>"

definition w0 :: world where
  "w0 = \<lparr>trace = [], tmpfs = []\<rparr>"

text \<open>A provider whose follow-up pages are all empty although it announced 5 records.\<close>

definition stuck_http :: "string \<Rightarrow> error + http_body" where
  "stuck_http url =
     (if url = artifacts_url ''acme/app''
        then Inr (Json \<lparr>total_count = Some 5, artifacts = Some ex_page1\<rparr>)
      else Inr (Json \<lparr>total_count = Some 5, artifacts = Some []\<rparr>))"

definition stuck_env :: env where
  "stuck_env = ex_env\<lparr>http := stuck_http\<rparr>"

definition stuck_pages :: "nat \<Rightarrow> artifact_record list" where
  "stuck_pages k = []"

text \<open>A provider that announces 3 records, answers page 2 with an empty list and page 3
  with the missing record.\<close>

definition gap_http :: "string \<Rightarrow> error + http_body" where
  "gap_http url =
     (if url = artifacts_url ''acme/app''
        then Inr (Json \<lparr>total_count = Some 3, artifacts = Some ex_page1\<rparr>)
      else if url = page_url ''acme/app'' 2
        then Inr (Json \<lparr>total_count = Some 3, artifacts = Some []\<rparr>)
      else if url = page_url ''acme/app'' 3
        then Inr (Json \<lparr>total_count = Some 3, artifacts = Some ex_page3\<rparr>)
      else if url = zip_url ''acme/app'' 2 then Inr (Zip ex_zip)
      else Inl ConnectionError)"

definition gap_env :: env where
  "gap_env = ex_env\<lparr>http := gap_http\<rparr>"

definition ex_cred :: "string \<times> string" where
  "ex_cred = (''deploy-bot'', ''token'')"

text \<open>The world of the example run after \<open>sudo -v\<close> and the greeting.\<close>

definition w_started :: world where
  "w_started = \<lparr>trace = [Run [''sudo'', ''-v''] 0, Print ''here we go''], tmpfs = []\<rparr>"

definition gap_listed :: world where
  "gap_listed =
     \<lparr>trace = [Run [''sudo'', ''-v''] 0, Print ''here we go'',
               HttpGet (artifacts_url ''acme/app'') ex_cred,
               HttpGet (page_url ''acme/app'' 2) ex_cred,
               HttpGet (page_url ''acme/app'' 3) ex_cred],
      tmpfs = []\<rparr>"

text \<open>The example run started by the superuser.\<close>

definition root_env :: env where
  "root_env = ex_env\<lparr>geteuid := 0\<rparr>"

definition w_refused :: world where
  "w_refused = \<lparr>trace = [Print ''you aren't supposed to run this as root''], tmpfs = []\<rparr>"

text \<open>The example run asking for an artifact name that no record of the listing has.\<close>

definition nomatch_config :: config where
  "nomatch_config = ex_config\<lparr>artifact := Some ''web''\<rparr>"

definition nomatch_read_config :: "string \<Rightarrow> error + config" where
  "nomatch_read_config path =
     (if path = ''deploy.yaml'' then Inr nomatch_config else Inl ConfigLoadError)"

definition nomatch_env :: env where
  "nomatch_env = ex_env\<lparr>read_config := nomatch_read_config\<rparr>"

text \<open>The world of the example run after the three listing requests.\<close>

definition ex_listed :: world where
  "ex_listed =
     \<lparr>trace = [Run [''sudo'', ''-v''] 0, Print ''here we go'',
               HttpGet (artifacts_url ''acme/app'') ex_cred,
               HttpGet (page_url ''acme/app'' 2) ex_cred,
               HttpGet (page_url ''acme/app'' 3) ex_cred],
      tmpfs = []\<rparr>"

text \<open>The example run without services.\<close>

definition quiet_config :: config where
  "quiet_config = ex_config\<lparr>systemd_services := []\<rparr>"

definition quiet_read_config :: "string \<Rightarrow> error + config" where
  "quiet_read_config path =
     (if path = ''deploy.yaml'' then Inr quiet_config else Inl ConfigLoadError)"

definition quiet_env :: env where
  "quiet_env = ex_env\<lparr>read_config := quiet_read_config\<rparr>"

text \<open>The example run with a target directory that holds a NUL character, as the YAML
  string \<open>"/opt/app/lib\0"\<close> does: a command with such an argument cannot be spawned.\<close>

definition nul_config :: config where
  "nul_config = ex_config\<lparr>copy_patterns := [(''*.so'', ''/opt/app/lib'' @ [CHR 0x00])]\<rparr>"

definition nul_read_config :: "string \<Rightarrow> error + config" where
  "nul_read_config path =
     (if path = ''deploy.yaml'' then Inr nul_config else Inl ConfigLoadError)"

definition nul_exec :: "string list \<Rightarrow> error + int" where
  "nul_exec args = (if CHR 0x00 \<in> set (concat args) then Inl ValueError else Inr 0)"

definition nul_env :: env where
  "nul_env = ex_env\<lparr>read_config := nul_read_config, exec := nul_exec\<rparr>"

text \<open>From one world to a later one, no event of the status phase was added.\<close>

definition quiet_step :: "world \<Rightarrow> world \<Rightarrow> bool" where
  "quiet_step w w' = (\<exists>evs. trace w' = trace w @ evs \<and> (\<forall>e\<in>set evs. \<not> is_report e))"

text \<open>The events of the example run up to the end of the download.\<close>

definition ex_events :: "event list" where
  "ex_events =
     [Run [''sudo'', ''-v''] 0, Print ''here we go'',
      HttpGet (artifacts_url ''acme/app'') ex_cred,
      HttpGet (page_url ''acme/app'' 2) ex_cred,
      HttpGet (page_url ''acme/app'' 3) ex_cred,
      HttpGet (zip_url ''acme/app'' 2) ex_cred,
      WriteFile ''/var/tmp/app.zip'' (Zip ex_zip)]"

definition ex_staged :: "(string \<times> bytes) list" where
  "ex_staged =
     [(''/tmp/tmp'', ''ELF''), (''/tmp/tmpa'', ''X''), (''/tmp/tmpaa'', ''Z''),
      (''/tmp/tmpaaa'', ''T'')]"

definition ex_dict :: "(string \<times> string) list" where
  "ex_dict =
     [(''/tmp/tmp'', ''/opt/app/app''), (''/tmp/tmpa'', ''/opt/app/lib/x.so''),
      (''/tmp/tmpaa'', ''/opt/app/lib/z.so''), (''/tmp/tmpaaa'', ''/opt/app/lib/x.so'')]"

definition nul_dict :: "(string \<times> string) list" where
  "nul_dict =
     [(''/tmp/tmp'', ''/opt/app/app''),
      (''/tmp/tmpa'', ''/opt/app/lib'' @ [CHR 0x00] @ ''/x.so''),
      (''/tmp/tmpaa'', ''/opt/app/lib'' @ [CHR 0x00] @ ''/z.so''),
      (''/tmp/tmpaaa'', ''/opt/app/lib'' @ [CHR 0x00] @ ''/x.so'')]"

section \<open>Properties\<close>

subsection \<open>The descending stable sort\<close>

lemma sorted_key_last_max:
  "sorted (map key ys) \<Longrightarrow> y \<in> set ys \<Longrightarrow> key y \<le> key (last ys)"
  by (induction ys) (auto split: if_splits)

lemma last_filter_sat: "ys \<noteq> [] \<Longrightarrow> P (last ys) \<Longrightarrow> last (filter P ys) = last ys"
  by (induction ys rule: rev_induct) auto

lemma sort_reverse_set: "set (sort_reverse key xs) = set xs"
  by (simp add: sort_reverse_def)

lemma sort_reverse_stable:
  "filter (\<lambda>y. key y = k) (sort_reverse key xs) = filter (\<lambda>y. key y = k) xs"
  by (simp add: sort_reverse_def sort_key_stable rev_filter[symmetric])

lemma sort_reverse_sorted:
  "sorted_wrt (\<lambda>a b. key b \<le> key a) (sort_reverse key xs)"
  using sorted_sort_key[of key "rev xs"]
  by (simp add: sort_reverse_def sorted_wrt_rev sorted_map)

lemma sort_reverse_hd:
  fixes key :: "'a \<Rightarrow> 'k::linorder"
  assumes "xs \<noteq> []"
  shows "hd (sort_reverse key xs) = hd (filter (\<lambda>b. key b = Max (key ` set xs)) xs)"
proof -
  let ?ys = "sort_key key (rev xs)"
  let ?m = "Max (key ` set xs)"
  have ne: "?ys \<noteq> []" using assms by (metis length_0_conv length_rev length_sort)
  have srt: "sorted (map key ?ys)" by (rule sorted_sort_key)
  have setys: "set ?ys = set xs" by simp
  have mem: "last ?ys \<in> set xs" using ne setys last_in_set by blast
  moreover have "\<forall>y\<in>set xs. key y \<le> key (last ?ys)"
    using sorted_key_last_max[OF srt] setys by blast
  ultimately have km: "key (last ?ys) = ?m"
    by (intro Max_eqI[symmetric]) auto
  have "hd (sort_reverse key xs) = last ?ys"
    using ne by (simp add: sort_reverse_def hd_rev)
  also have "\<dots> = last (filter (\<lambda>b. key b = ?m) ?ys)"
    using last_filter_sat[OF ne, of "\<lambda>b. key b = ?m"] km by simp
  also have "filter (\<lambda>b. key b = ?m) ?ys = rev (filter (\<lambda>b. key b = ?m) xs)"
    by (simp add: sort_key_stable rev_filter)
  also have "last (rev (filter (\<lambda>b. key b = ?m) xs)) = hd (filter (\<lambda>b. key b = ?m) xs)"
  proof -
    have "filter (\<lambda>b. key b = ?m) xs \<noteq> []"
      using mem km by (auto simp: filter_empty_conv)
    then show ?thesis by (simp add: last_rev)
  qed
  finally show ?thesis .
qed

lemma hd_filter_index:
  "\<exists>x\<in>set xs. P x \<Longrightarrow>
   \<exists>i<length xs. hd (filter P xs) = xs ! i \<and> P (xs ! i) \<and> (\<forall>j<i. \<not> P (xs ! j))"
proof (induction xs)
  case Nil
  then show ?case by simp
next
  case (Cons x xs)
  show ?case
  proof (cases "P x")
    case True
    then have "hd (filter P (x # xs)) = (x # xs) ! 0 \<and> P ((x # xs) ! 0)
        \<and> (\<forall>j<0. \<not> P ((x # xs) ! j))"
      by simp
    then show ?thesis by (metis length_greater_0_conv list.distinct(1))
  next
    case False
    then have "\<exists>y\<in>set xs. P y" using Cons.prems by auto
    from Cons.IH[OF this] obtain i where i: "i < length xs" "hd (filter P xs) = xs ! i"
      "P (xs ! i)" "\<forall>j<i. \<not> P (xs ! j)" by blast
    have "\<forall>j<Suc i. \<not> P ((x # xs) ! j)"
      using False i(4) by (auto simp: less_Suc_eq_0_disj)
    with i False have "Suc i < length (x # xs) \<and> hd (filter P (x # xs)) = (x # xs) ! Suc i
        \<and> P ((x # xs) ! Suc i) \<and> (\<forall>j<Suc i. \<not> P ((x # xs) ! j))"
      by simp
    then show ?thesis by blast
  qed
qed

lemma freshest_is_first_maximum:
  assumes "wanted \<noteq> []"
  shows "freshest wanted
    = Inr (hd (filter (\<lambda>b. updated_at b = Max (updated_at ` set wanted)) wanted))"
proof -
  obtain art rest where sr: "sort_reverse updated_at wanted = art # rest"
    using assms sort_reverse_set[of updated_at wanted]
    by (cases "sort_reverse updated_at wanted") auto
  have "art = hd (sort_reverse updated_at wanted)" using sr by simp
  then show ?thesis using sr sort_reverse_hd[OF assms, of updated_at]
    by (simp add: freshest_def)
qed

subsection \<open>Selection\<close>

text \<open>
  C3. For a non-empty list of filtered records, in the order the provider gave them, the
  selection returns the record at the least position whose \<open>updated_at\<close> is the maximum:
  nothing in the list is newer, and everything before it is strictly older. The sort
  behind it is descending and stable: records with the same timestamp keep their
  relative order.
\<close>

theorem freshest_first_of_latest:
  assumes "wanted \<noteq> []"
  shows "(\<exists>i<length wanted.
            freshest wanted = Inr (wanted ! i)
          \<and> (\<forall>j<length wanted. updated_at (wanted ! j) \<le> updated_at (wanted ! i))
          \<and> (\<forall>j<i. updated_at (wanted ! j) < updated_at (wanted ! i)))
       \<and> sorted_wrt (\<lambda>a b. updated_at b \<le> updated_at a) (sort_reverse updated_at wanted)
       \<and> (\<forall>t. filter (\<lambda>a. updated_at a = t) (sort_reverse updated_at wanted)
              = filter (\<lambda>a. updated_at a = t) wanted)"
proof -
  let ?m = "Max (updated_at ` set wanted)"
  have fin: "finite (updated_at ` set wanted)" and ne: "updated_at ` set wanted \<noteq> {}"
    using assms by auto
  have "?m \<in> updated_at ` set wanted" using Max_in[OF fin ne] .
  then have "\<exists>x\<in>set wanted. updated_at x = ?m" by auto
  from hd_filter_index[OF this] obtain i where i: "i < length wanted"
    "hd (filter (\<lambda>b. updated_at b = ?m) wanted) = wanted ! i"
    "updated_at (wanted ! i) = ?m" "\<forall>j<i. updated_at (wanted ! j) \<noteq> ?m" by blast
  have le: "\<forall>j<length wanted. updated_at (wanted ! j) \<le> ?m"
    using fin by (simp add: Max_ge)
  have "\<forall>j<i. updated_at (wanted ! j) < ?m"
    using le i(1) i(4) by (metis dual_order.strict_trans order_le_less)
  with i le freshest_is_first_maximum[OF assms]
  have "\<exists>i<length wanted.
            freshest wanted = Inr (wanted ! i)
          \<and> (\<forall>j<length wanted. updated_at (wanted ! j) \<le> updated_at (wanted ! i))
          \<and> (\<forall>j<i. updated_at (wanted ! j) < updated_at (wanted ! i))"
    by auto
  then show ?thesis
    using sort_reverse_sorted[of updated_at wanted] sort_reverse_stable[of updated_at _ wanted]
    by blast
qed

theorem freshest_first_of_latest_witness:
  "ex_wanted \<noteq> []
   \<and> (\<exists>i<length ex_wanted.
          freshest ex_wanted = Inr (ex_wanted ! i)
        \<and> (\<forall>j<length ex_wanted. updated_at (ex_wanted ! j) \<le> updated_at (ex_wanted ! i))
        \<and> (\<forall>j<i. updated_at (ex_wanted ! j) < updated_at (ex_wanted ! i)))
   \<and> freshest ex_wanted = Inr (ex_art 2 ''app'' ''2024-05-03T10:00:00Z'' ''main'')"
proof -
  have h: "ex_wanted \<noteq> []" by (simp add: ex_wanted_def)
  have v: "freshest ex_wanted = Inr (ex_art 2 ''app'' ''2024-05-03T10:00:00Z'' ''main'')"
    by (simp add: ex_wanted_def ex_art_def freshest_def sort_reverse_def)
  from freshest_first_of_latest[OF h] h v show ?thesis by blast
qed

text \<open>
  C4. When the configuration names an artifact, the filter keeps exactly the records
  whose name equals it and whose branch passes: an absent or empty \<open>branch\<close> lets every
  branch pass, any other value only the records of that branch. Order and repetitions of
  the listing are kept.
\<close>

theorem wanted_artifacts_keeps_iff:
  assumes "artifact c = Some a"
  shows "wanted_artifacts c all_artifacts =
           Inr (filter (\<lambda>art. name art = a
                  \<and> (branch c = None \<or> branch c = Some [] \<or> branch c = Some (head_branch art)))
                all_artifacts)
       \<and> (\<exists>wanted. wanted_artifacts c all_artifacts = Inr wanted
            \<and> (\<forall>art. art \<in> set wanted \<longleftrightarrow>
                  art \<in> set all_artifacts \<and> name art = a
                  \<and> (branch c = None \<or> branch c = Some [] \<or> branch c = Some (head_branch art))))
       \<and> (branch c = None \<or> branch c = Some [] \<longrightarrow>
            wanted_artifacts c all_artifacts = Inr (filter (\<lambda>art. name art = a) all_artifacts))"
proof -
  have eq: "wanted_artifacts c all_artifacts =
           Inr (filter (\<lambda>art. name art = a
                  \<and> (branch c = None \<or> branch c = Some [] \<or> branch c = Some (head_branch art)))
                all_artifacts)"
  proof (cases "all_artifacts = []")
    case True
    then show ?thesis by (simp add: wanted_artifacts_def)
  next
    case False
    have br: "\<And>art. (want_branch c = [] \<or> head_branch art = want_branch c)
        \<longleftrightarrow> (branch c = None \<or> branch c = Some [] \<or> branch c = Some (head_branch art))"
      by (auto simp: want_branch_def split: option.splits)
    show ?thesis using False assms by (simp add: wanted_artifacts_def br)
  qed
  have "branch c = None \<or> branch c = Some [] \<Longrightarrow>
      wanted_artifacts c all_artifacts = Inr (filter (\<lambda>art. name art = a) all_artifacts)"
    using eq by auto
  then show ?thesis using eq by auto
qed

theorem wanted_artifacts_keeps_iff_witness:
  "artifact ex_config = Some ''app''
   \<and> wanted_artifacts ex_config (ex_page1 @ ex_page2 @ ex_page3) =
       Inr (filter (\<lambda>art. name art = ''app''
              \<and> (branch ex_config = None \<or> branch ex_config = Some []
                 \<or> branch ex_config = Some (head_branch art)))
            (ex_page1 @ ex_page2 @ ex_page3))
   \<and> wanted_artifacts ex_config (ex_page1 @ ex_page2 @ ex_page3) =
       Inr [ex_art 1 ''app'' ''2024-05-01T10:00:00Z'' ''main'',
            ex_art 2 ''app'' ''2024-05-03T10:00:00Z'' ''main'',
            ex_art 5 ''app'' ''2024-05-03T10:00:00Z'' ''main'']"
proof -
  have h: "artifact ex_config = Some ''app''" by (simp add: ex_config_def)
  have v: "filter (\<lambda>art. name art = ''app''
              \<and> (branch ex_config = None \<or> branch ex_config = Some []
                 \<or> branch ex_config = Some (head_branch art)))
            (ex_page1 @ ex_page2 @ ex_page3)
         = [ex_art 1 ''app'' ''2024-05-01T10:00:00Z'' ''main'',
            ex_art 2 ''app'' ''2024-05-03T10:00:00Z'' ''main'',
            ex_art 5 ''app'' ''2024-05-03T10:00:00Z'' ''main'']"
    by (simp add: ex_config_def ex_page1_def ex_page2_def ex_page3_def ex_art_def)
  from wanted_artifacts_keeps_iff[OF h, of "ex_page1 @ ex_page2 @ ex_page3"] h v
  show ?thesis by simp
qed

subsection \<open>The listing loop\<close>

lemma request_ok:
  "get_netrc_auth en url = Some cred \<Longrightarrow> http en url = Inr body \<Longrightarrow>
   request en url w = (Inr body, emit (HttpGet url cred) w)"
  by (simp add: request_def)

lemma fetch_loop_done:
  "\<not> int (length all_artifacts) < artifact_count \<Longrightarrow>
   fetch_loop en r artifact_count page all_artifacts w = Some (Inr all_artifacts, w)"
  by (subst fetch_loop.simps) simp

lemma fetch_loop_step:
  assumes "int (length all_artifacts) < artifact_count"
    and "get_netrc_auth en (page_url r page) = Some cred"
    and "http en (page_url r page) = Inr (Json j)"
    and "artifacts j = Some extra"
  shows "fetch_loop en r artifact_count page all_artifacts w =
         fetch_loop en r artifact_count (page + 1) (all_artifacts @ extra)
           (emit (HttpGet (page_url r page) cred) w)"
  using assms by (subst fetch_loop.simps) (simp add: request_ok json_def)

lemma emit_trace: "trace (emit e w) = trace w @ [e]"
  by (simp add: emit_def)

lemma emit_tmpfs: "tmpfs (emit e w) = tmpfs w"
  by (simp add: emit_def)

lemma fetch_loop_pages:
  assumes "\<forall>k<length rest. get_netrc_auth en (page_url r (page + k)) = Some cred
             \<and> (\<exists>tc. http en (page_url r (page + k))
                   = Inr (Json \<lparr>total_count = tc, artifacts = Some (rest ! k)\<rparr>))"
    and "[] \<notin> set rest"
    and "artifact_count = int (length all_artifacts + length (concat rest))"
  shows "\<exists>w'. fetch_loop en r artifact_count page all_artifacts w
               = Some (Inr (all_artifacts @ concat rest), w')
           \<and> trace w' = trace w @ map (\<lambda>k. HttpGet (page_url r k) cred) [page..<page + length rest]
           \<and> tmpfs w' = tmpfs w"
  using assms
proof (induction rest arbitrary: page all_artifacts w)
  case Nil
  then show ?case by (simp add: fetch_loop_done)
next
  case (Cons p ps)
  have pne: "p \<noteq> []" using Cons.prems(2) by auto
  then have lt: "int (length all_artifacts) < artifact_count"
    using Cons.prems(3) by (cases p) auto
  from Cons.prems(1) have "get_netrc_auth en (page_url r (page + 0)) = Some cred
      \<and> (\<exists>tc. http en (page_url r (page + 0))
            = Inr (Json \<lparr>total_count = tc, artifacts = Some ((p # ps) ! 0)\<rparr>))"
    by (metis length_greater_0_conv list.distinct(1))
  then obtain tc where cr: "get_netrc_auth en (page_url r page) = Some cred"
    and ht: "http en (page_url r page) = Inr (Json \<lparr>total_count = tc, artifacts = Some p\<rparr>)"
    by auto
  let ?w1 = "emit (HttpGet (page_url r page) cred) w"
  have step: "fetch_loop en r artifact_count page all_artifacts w =
      fetch_loop en r artifact_count (page + 1) (all_artifacts @ p) ?w1"
    by (rule fetch_loop_step[OF lt cr ht]) simp
  have shifted: "\<forall>k<length ps. get_netrc_auth en (page_url r (page + 1 + k)) = Some cred
             \<and> (\<exists>tc. http en (page_url r (page + 1 + k))
                   = Inr (Json \<lparr>total_count = tc, artifacts = Some (ps ! k)\<rparr>))"
  proof (intro allI impI)
    fix k assume "k < length ps"
    then have "Suc k < length (p # ps)" by simp
    with Cons.prems(1) have "get_netrc_auth en (page_url r (page + Suc k)) = Some cred
             \<and> (\<exists>tc. http en (page_url r (page + Suc k))
                   = Inr (Json \<lparr>total_count = tc, artifacts = Some ((p # ps) ! Suc k)\<rparr>))"
      by blast
    then show "get_netrc_auth en (page_url r (page + 1 + k)) = Some cred
             \<and> (\<exists>tc. http en (page_url r (page + 1 + k))
                   = Inr (Json \<lparr>total_count = tc, artifacts = Some (ps ! k)\<rparr>))"
      by simp
  qed
  have cnt: "artifact_count = int (length (all_artifacts @ p) + length (concat ps))"
    using Cons.prems(3) by simp
  from Cons.IH[OF shifted _ cnt, of ?w1] Cons.prems(2)
  obtain w' where w': "fetch_loop en r artifact_count (page + 1) (all_artifacts @ p) ?w1
               = Some (Inr ((all_artifacts @ p) @ concat ps), w')"
    "trace w' = trace ?w1 @ map (\<lambda>k. HttpGet (page_url r k) cred) [page + 1..<page + 1 + length ps]"
    "tmpfs w' = tmpfs ?w1"
    by auto
  have "page < page + length (p # ps)" by simp
  then have "[page..<page + length (p # ps)] = page # [Suc page..<page + length (p # ps)]"
    by (rule upt_conv_Cons)
  then have "[page..<page + length (p # ps)] = page # [page + 1..<page + 1 + length ps]"
    by simp
  then show ?case using step w' by (simp add: emit_trace emit_tmpfs)
qed

lemma list_artifacts_pages:
  assumes "repo c = Some r"
    and "\<forall>url. get_netrc_auth en url = Some cred"
    and "http en (artifacts_url r)
           = Inr (Json \<lparr>total_count = Some (int N), artifacts = Some first\<rparr>)"
    and "\<forall>k<length rest. \<exists>tc. http en (page_url r (k + 2))
           = Inr (Json \<lparr>total_count = tc, artifacts = Some (rest ! k)\<rparr>)"
    and "[] \<notin> set rest"
    and "N = length first + length (concat rest)"
  shows "\<exists>w'. list_artifacts en c w = Some (Inr (first @ concat rest), w')
           \<and> trace w' = trace w @ HttpGet (artifacts_url r) cred
                 # map (\<lambda>k. HttpGet (page_url r k) cred) [2..<2 + length rest]
           \<and> tmpfs w' = tmpfs w"
proof -
  let ?w1 = "emit (HttpGet (artifacts_url r) cred) w"
  have first_req: "request en (artifacts_url r) w
      = (Inr (Json \<lparr>total_count = Some (int N), artifacts = Some first\<rparr>), ?w1)"
    using assms(2,3) by (simp add: request_ok)
  have la: "list_artifacts en c w = fetch_loop en r (int N) 2 first ?w1"
    using assms(1) first_req by (simp add: list_artifacts_def json_def)
  have served: "\<forall>k<length rest. get_netrc_auth en (page_url r (2 + k)) = Some cred
             \<and> (\<exists>tc. http en (page_url r (2 + k))
                   = Inr (Json \<lparr>total_count = tc, artifacts = Some (rest ! k)\<rparr>))"
    using assms(2,4) by (simp add: add.commute)
  have cnt: "int N = int (length first + length (concat rest))" using assms(6) by simp
  from fetch_loop_pages[OF served assms(5) cnt, of ?w1]
  show ?thesis using la by (auto simp: emit_trace emit_tmpfs)
qed

text \<open>
  C2. The provider reports \<open>total_count = N\<close> and hands the \<open>N\<close> records out in pages of
  any sizes it likes: a first page, which may be empty, and follow-up pages \<open>rest\<close>, none
  of them empty, which need not have the same length. Then the listing ends, with
  exactly the \<open>N\<close> records in the provider's order, after one request per page and no
  further request: the loop stops on the count, whatever the number of pages.
\<close>

theorem listing_collects_total_count:
  assumes "repo c = Some r"
    and "\<forall>url. get_netrc_auth en url = Some cred"
    and "http en (artifacts_url r)
           = Inr (Json \<lparr>total_count = Some (int N), artifacts = Some first\<rparr>)"
    and "\<forall>k<length rest. \<exists>tc. http en (page_url r (k + 2))
           = Inr (Json \<lparr>total_count = tc, artifacts = Some (rest ! k)\<rparr>)"
    and "[] \<notin> set rest"
    and "N = length first + length (concat rest)"
  shows "\<exists>w'. list_artifacts en c w = Some (Inr (first @ concat rest), w')
           \<and> length (first @ concat rest) = N
           \<and> trace w' = trace w @ HttpGet (artifacts_url r) cred
                 # map (\<lambda>k. HttpGet (page_url r k) cred) [2..<2 + length rest]
           \<and> tmpfs w' = tmpfs w"
  using list_artifacts_pages[OF assms, of w] assms(6) by auto

lemma page_url_neq_artifacts_url: "page_url r k \<noteq> artifacts_url r"
  by (simp add: page_url_def)

lemma ex_page_urls:
  "page_url ''acme/app'' 2 \<noteq> page_url ''acme/app'' 3"
  "zip_url ''acme/app'' 2 \<noteq> artifacts_url ''acme/app''"
  "zip_url ''acme/app'' 2 \<noteq> page_url ''acme/app'' 2"
  "zip_url ''acme/app'' 2 \<noteq> page_url ''acme/app'' 3"
  by (simp_all add: page_url_def zip_url_def str_nat.simps)

lemma ex_http_first:
  "http ex_env (artifacts_url ''acme/app'')
     = Inr (Json \<lparr>total_count = Some (int 5), artifacts = Some ex_page1\<rparr>)"
  by (simp add: ex_env_def ex_http_def)

lemma ex_http_page2:
  "http ex_env (page_url ''acme/app'' 2)
     = Inr (Json \<lparr>total_count = Some 5, artifacts = Some ex_page2\<rparr>)"
  by (simp add: ex_env_def ex_http_def page_url_neq_artifacts_url)

lemma ex_http_page3:
  "http ex_env (page_url ''acme/app'' 3)
     = Inr (Json \<lparr>total_count = Some 5, artifacts = Some ex_page3\<rparr>)"
  using ex_page_urls(1) by (simp add: ex_env_def ex_http_def page_url_neq_artifacts_url)

lemma ex_http_rest:
  "\<forall>k<length [ex_page2, ex_page3]. \<exists>tc. http ex_env (page_url ''acme/app'' (k + 2))
     = Inr (Json \<lparr>total_count = tc, artifacts = Some ([ex_page2, ex_page3] ! k)\<rparr>)"
proof (intro allI impI)
  fix k :: nat
  assume "k < length [ex_page2, ex_page3]"
  then consider "k = 0" | "k = 1" by fastforce
  then show "\<exists>tc. http ex_env (page_url ''acme/app'' (k + 2))
     = Inr (Json \<lparr>total_count = tc, artifacts = Some ([ex_page2, ex_page3] ! k)\<rparr>)"
  proof cases
    case 1
    have e: "k + 2 = 2" and n: "[ex_page2, ex_page3] ! k = ex_page2" using 1 by simp_all
    show ?thesis unfolding e n using ex_http_page2 by blast
  next
    case 2
    have e: "k + 2 = 3" and n: "[ex_page2, ex_page3] ! k = ex_page3" using 2 by simp_all
    show ?thesis unfolding e n using ex_http_page3 by blast
  qed
qed

theorem listing_collects_total_count_witness:
  "repo ex_config = Some ''acme/app''
   \<and> (\<forall>url. get_netrc_auth ex_env url = Some (''deploy-bot'', ''token''))
   \<and> [] \<notin> set [ex_page2, ex_page3]
   \<and> (5::nat) = length ex_page1 + length (concat [ex_page2, ex_page3])
   \<and> (\<exists>w'. list_artifacts ex_env ex_config w0
              = Some (Inr (ex_page1 @ concat [ex_page2, ex_page3]), w')
         \<and> length (ex_page1 @ concat [ex_page2, ex_page3]) = 5
         \<and> trace w' = trace w0 @ HttpGet (artifacts_url ''acme/app'') (''deploy-bot'', ''token'')
               # map (\<lambda>k. HttpGet (page_url ''acme/app'' k) (''deploy-bot'', ''token''))
                   [2..<2 + length [ex_page2, ex_page3]]
         \<and> tmpfs w' = tmpfs w0)"
proof -
  have h1: "repo ex_config = Some ''acme/app''" by (simp add: ex_config_def)
  have h2: "\<forall>url. get_netrc_auth ex_env url = Some (''deploy-bot'', ''token'')"
    by (simp add: ex_env_def ex_netrc_def)
  have h5: "[] \<notin> set [ex_page2, ex_page3]" by (simp add: ex_page2_def ex_page3_def)
  have h6: "(5::nat) = length ex_page1 + length (concat [ex_page2, ex_page3])"
    by (simp add: ex_page1_def ex_page2_def ex_page3_def)
  from listing_collects_total_count[OF h1 h2 ex_http_first ex_http_rest h5 h6, of w0]
  show ?thesis using h1 h2 h5 h6 by blast
qed

subsection \<open>When the listing loop ends\<close>

lemma fetch_loop_reaches_Some:
  assumes "\<forall>url. get_netrc_auth en url \<noteq> None"
    and "\<forall>k\<ge>page. \<exists>tc. http en (page_url r k)
           = Inr (Json \<lparr>total_count = tc, artifacts = Some (pg k)\<rparr>)"
    and "artifact_count
           \<le> int (length all_artifacts + length (concat (map pg [page..<page + n])))"
  shows "fetch_loop en r artifact_count page all_artifacts w \<noteq> None"
  using assms
proof (induction n arbitrary: page all_artifacts w)
  case 0
  then show ?case by (simp add: fetch_loop_done)
next
  case (Suc n)
  show ?case
  proof (cases "int (length all_artifacts) < artifact_count")
    case False
    then show ?thesis by (simp add: fetch_loop_done)
  next
    case True
    obtain cred where cr: "get_netrc_auth en (page_url r page) = Some cred"
      using Suc.prems(1) by (metis not_None_eq)
    obtain tc where ht: "http en (page_url r page)
        = Inr (Json \<lparr>total_count = tc, artifacts = Some (pg page)\<rparr>)"
      using Suc.prems(2) by auto
    have step: "fetch_loop en r artifact_count page all_artifacts w =
        fetch_loop en r artifact_count (page + 1) (all_artifacts @ pg page)
          (emit (HttpGet (page_url r page) cred) w)"
      by (rule fetch_loop_step[OF True cr ht]) simp
    have "page < page + Suc n" by simp
    then have "[page..<page + Suc n] = page # [Suc page..<page + Suc n]"
      by (rule upt_conv_Cons)
    then have "[page..<page + Suc n] = page # [page + 1..<page + 1 + n]" by simp
    then have cnt: "artifact_count
        \<le> int (length (all_artifacts @ pg page) + length (concat (map pg [page + 1..<page + 1 + n])))"
      using Suc.prems(3) by simp
    have later: "\<forall>k\<ge>page + 1. \<exists>tc. http en (page_url r k)
           = Inr (Json \<lparr>total_count = tc, artifacts = Some (pg k)\<rparr>)"
      using Suc.prems(2) by simp
    from Suc.IH[OF Suc.prems(1) later cnt] step show ?thesis by simp
  qed
qed

lemma fetch_loop_Some_reaches:
  assumes "fetch_loop en r artifact_count page all_artifacts w = Some y"
    and "\<forall>url. get_netrc_auth en url \<noteq> None"
    and "\<forall>k\<ge>page. \<exists>tc. http en (page_url r k)
           = Inr (Json \<lparr>total_count = tc, artifacts = Some (pg k)\<rparr>)"
  shows "\<exists>n. artifact_count
           \<le> int (length all_artifacts + length (concat (map pg [page..<page + n])))"
proof -
  define Q where "Q = (\<lambda>(en::env) r (artifact_count::int) page
      (all_artifacts::artifact_record list) (w::world)
      (y::(error + artifact_record list) \<times> world).
        (\<forall>url. get_netrc_auth en url \<noteq> None) \<longrightarrow>
        (\<forall>k\<ge>page. \<exists>tc. http en (page_url r k)
           = Inr (Json \<lparr>total_count = tc, artifacts = Some (pg k)\<rparr>)) \<longrightarrow>
        (\<exists>n. artifact_count
           \<le> int (length all_artifacts + length (concat (map pg [page..<page + n])))))"
  have "Q en r artifact_count page all_artifacts w y"
  proof (rule fetch_loop.raw_induct[where P = Q, OF _ assms(1)])
    fix f en r artifact_count page all_artifacts w y
    assume IH: "\<And>en r artifact_count page all_artifacts w y.
        f en r artifact_count page all_artifacts w = Some y
        \<Longrightarrow> Q en r artifact_count page all_artifacts w y"
      and body: "(if int (length all_artifacts) < artifact_count
          then case request en (page_url r page) w of
               (Inl e, w1) \<Rightarrow> Some (Inl e, w1)
             | (Inr response, w1) \<Rightarrow>
                 (case json response of
                    Inl e \<Rightarrow> Some (Inl e, w1)
                  | Inr resp_json \<Rightarrow>
                      (case artifacts resp_json of
                         None \<Rightarrow> Some (Inl (KeyError ''artifacts''), w1)
                       | Some extra \<Rightarrow>
                           f en r artifact_count (page + 1) (all_artifacts @ extra) w1))
          else Some (Inr all_artifacts, w)) = Some y"
    show "Q en r artifact_count page all_artifacts w y"
      unfolding Q_def
    proof (intro impI)
      assume creds: "\<forall>url. get_netrc_auth en url \<noteq> None"
        and served: "\<forall>k\<ge>page. \<exists>tc. http en (page_url r k)
           = Inr (Json \<lparr>total_count = tc, artifacts = Some (pg k)\<rparr>)"
      show "\<exists>n. artifact_count
           \<le> int (length all_artifacts + length (concat (map pg [page..<page + n])))"
      proof (cases "int (length all_artifacts) < artifact_count")
        case False
        then have "artifact_count
           \<le> int (length all_artifacts + length (concat (map pg [page..<page + 0])))"
          by simp
        then show ?thesis by blast
      next
        case True
        obtain cred where cr: "get_netrc_auth en (page_url r page) = Some cred"
          using creds by (metis not_None_eq)
        obtain tc where ht: "http en (page_url r page)
            = Inr (Json \<lparr>total_count = tc, artifacts = Some (pg page)\<rparr>)"
          using served by auto
        have call: "f en r artifact_count (page + 1) (all_artifacts @ pg page)
            (emit (HttpGet (page_url r page) cred) w) = Some y"
          using body True cr ht by (simp add: request_ok json_def)
        have later: "\<forall>k\<ge>page + 1. \<exists>tc. http en (page_url r k)
           = Inr (Json \<lparr>total_count = tc, artifacts = Some (pg k)\<rparr>)"
          using served by simp
        from IH[OF call] creds later obtain n where n: "artifact_count
            \<le> int (length (all_artifacts @ pg page)
                  + length (concat (map pg [page + 1..<page + 1 + n])))"
          unfolding Q_def by blast
        have "page < page + Suc n" by simp
        then have "[page..<page + Suc n] = page # [Suc page..<page + Suc n]"
          by (rule upt_conv_Cons)
        then have "[page..<page + Suc n] = page # [page + 1..<page + 1 + n]" by simp
        then have "artifact_count
           \<le> int (length all_artifacts + length (concat (map pg [page..<page + Suc n])))"
          using n by simp
        then show ?thesis by blast
      qed
    qed
  qed
  then show ?thesis using assms(2,3) unfolding Q_def by blast
qed

lemma list_artifacts_first_page:
  assumes "repo c = Some r"
    and "get_netrc_auth en (artifacts_url r) = Some cred"
    and "http en (artifacts_url r)
           = Inr (Json \<lparr>total_count = Some artifact_count, artifacts = Some first\<rparr>)"
  shows "list_artifacts en c w
         = fetch_loop en r artifact_count 2 first (emit (HttpGet (artifacts_url r) cred) w)"
  using assms by (simp add: list_artifacts_def request_ok json_def)

lemma empty_tail_pages:
  assumes "\<forall>k\<ge>m. pg k = []"
  shows "length (concat (map pg [i..<i + n])) \<le> length (concat (map pg [i..<m]))"
proof (cases "i + n \<le> m")
  case True
  then have "[i..<m] = [i..<i + n] @ [i + n..<m]"
    by (metis le_add1 le_Suc_ex upt_add_eq_append)
  then show ?thesis by simp
next
  case False
  show ?thesis
  proof (cases "i \<le> m")
    case True
    then have "[i..<i + n] = [i..<m] @ [m..<i + n]"
      using False by (metis le_Suc_ex nat_le_linear upt_add_eq_append)
    moreover have "concat (map pg [m..<i + n]) = []"
      using assms by simp
    ultimately show ?thesis by simp
  next
    case False
    then have e: "concat (map pg [i..<i + n]) = []" using assms by simp
    show ?thesis unfolding e by simp
  qed
qed

lemma main_None:
  "startup en ws = (Inr c, w) \<Longrightarrow> list_artifacts en c w = None \<Longrightarrow> main en ws = None"
  by (simp add: main_def)

text \<open>
  C10, as the loop has it. When every request is answered with a listing, where \<open>pg k\<close>
  is the list on follow-up page \<open>k\<close>, the loop ends if and only if the number of records
  of the first page and of some number of consecutive follow-up pages reaches the first
  page's \<open>total_count\<close>. If every follow-up page from some page \<open>m\<close> on is empty and the
  pages before it hold fewer records than \<open>total_count\<close>, the listing never returns and
  the run does not get past it. An empty page that is followed by non-empty ones does
  not have this effect.
\<close>

theorem listing_ends_iff_count_reached:
  assumes "repo c = Some r"
    and "\<forall>url. get_netrc_auth en url \<noteq> None"
    and "http en (artifacts_url r)
           = Inr (Json \<lparr>total_count = Some artifact_count, artifacts = Some first\<rparr>)"
    and "\<forall>k\<ge>2. \<exists>tc. http en (page_url r k)
           = Inr (Json \<lparr>total_count = tc, artifacts = Some (pg k)\<rparr>)"
  shows "(list_artifacts en c w \<noteq> None \<longleftrightarrow>
            (\<exists>n. artifact_count \<le> int (length first + length (concat (map pg [2..<2 + n])))))
       \<and> ((\<exists>m\<ge>2. (\<forall>k\<ge>m. pg k = [])
               \<and> int (length first + length (concat (map pg [2..<m]))) < artifact_count)
            \<longrightarrow> list_artifacts en c w = None
              \<and> (\<forall>ws. startup en ws = (Inr c, w) \<longrightarrow> main en ws = None))"
proof -
  obtain cred where cr: "get_netrc_auth en (artifacts_url r) = Some cred"
    using assms(2) by (metis not_None_eq)
  let ?w1 = "emit (HttpGet (artifacts_url r) cred) w"
  have la: "list_artifacts en c w = fetch_loop en r artifact_count 2 first ?w1"
    by (rule list_artifacts_first_page[OF assms(1) cr assms(3)])
  have iff: "list_artifacts en c w \<noteq> None \<longleftrightarrow>
            (\<exists>n. artifact_count \<le> int (length first + length (concat (map pg [2..<2 + n]))))"
  proof
    assume "list_artifacts en c w \<noteq> None"
    then obtain y where "fetch_loop en r artifact_count 2 first ?w1 = Some y"
      using la by auto
    from fetch_loop_Some_reaches[OF this assms(2) assms(4)]
    show "\<exists>n. artifact_count \<le> int (length first + length (concat (map pg [2..<2 + n])))" .
  next
    assume "\<exists>n. artifact_count \<le> int (length first + length (concat (map pg [2..<2 + n])))"
    then obtain n where
      "artifact_count \<le> int (length first + length (concat (map pg [2..<2 + n])))" ..
    from fetch_loop_reaches_Some[OF assms(2) assms(4) this, of ?w1]
    show "list_artifacts en c w \<noteq> None" using la by simp
  qed
  have stuck: "list_artifacts en c w = None
              \<and> (\<forall>ws. startup en ws = (Inr c, w) \<longrightarrow> main en ws = None)"
    if "\<exists>m\<ge>2. (\<forall>k\<ge>m. pg k = [])
               \<and> int (length first + length (concat (map pg [2..<m]))) < artifact_count"
  proof -
    from that obtain m where m: "\<forall>k\<ge>m. pg k = []"
      "int (length first + length (concat (map pg [2..<m]))) < artifact_count" by blast
    have "\<not> (\<exists>n. artifact_count \<le> int (length first + length (concat (map pg [2..<2 + n]))))"
    proof
      assume "\<exists>n. artifact_count \<le> int (length first + length (concat (map pg [2..<2 + n])))"
      then obtain n where
        n: "artifact_count \<le> int (length first + length (concat (map pg [2..<2 + n])))" ..
      have "length (concat (map pg [2..<2 + n])) \<le> length (concat (map pg [2..<m]))"
        by (rule empty_tail_pages[OF m(1)])
      with n m(2) show False by linarith
    qed
    then have "list_artifacts en c w = None" using iff by blast
    then show ?thesis using main_None by blast
  qed
  show ?thesis using iff stuck by blast
qed

lemma stuck_startup: "startup stuck_env w0 = (Inr ex_config, w_started)"
  by (simp add: startup_def stuck_env_def ex_env_def ex_read_config_def subprocess_run_def
      emit_def ex_exec_def w0_def w_started_def ex_config_def)

lemma stuck_served:
  "\<forall>k\<ge>2. \<exists>tc. http stuck_env (page_url ''acme/app'' k)
      = Inr (Json \<lparr>total_count = tc, artifacts = Some (stuck_pages k)\<rparr>)"
  by (simp add: stuck_env_def stuck_http_def stuck_pages_def page_url_neq_artifacts_url)

theorem listing_ends_iff_count_reached_witness:
  "repo ex_config = Some ''acme/app''
   \<and> http stuck_env (artifacts_url ''acme/app'')
       = Inr (Json \<lparr>total_count = Some 5, artifacts = Some ex_page1\<rparr>)
   \<and> int (length ex_page1 + length (concat (map stuck_pages [2..<2]))) < 5
   \<and> startup stuck_env w0 = (Inr ex_config, w_started)
   \<and> list_artifacts stuck_env ex_config w_started = None
   \<and> main stuck_env w0 = None"
proof -
  have h1: "repo ex_config = Some ''acme/app''" by (simp add: ex_config_def)
  have h2: "\<forall>url. get_netrc_auth stuck_env url \<noteq> None"
    by (simp add: stuck_env_def ex_env_def ex_netrc_def)
  have h3: "http stuck_env (artifacts_url ''acme/app'')
       = Inr (Json \<lparr>total_count = Some 5, artifacts = Some ex_page1\<rparr>)"
    by (simp add: stuck_env_def stuck_http_def)
  have e: "\<forall>k\<ge>2. stuck_pages k = []" by (simp add: stuck_pages_def)
  have f: "int (length ex_page1 + length (concat (map stuck_pages [2..<2]))) < 5"
    by (simp add: ex_page1_def)
  have "\<exists>m\<ge>2. (\<forall>k\<ge>m. stuck_pages k = [])
          \<and> int (length ex_page1 + length (concat (map stuck_pages [2..<m]))) < 5"
    using e f by blast
  with listing_ends_iff_count_reached[OF h1 h2 h3 stuck_served, of w_started]
  have "list_artifacts stuck_env ex_config w_started = None
      \<and> (\<forall>ws. startup stuck_env ws = (Inr ex_config, w_started) \<longrightarrow> main stuck_env ws = None)"
    by blast
  then show ?thesis using h1 h3 f stuck_startup by blast
qed

lemma gap_startup: "startup gap_env w0 = (Inr ex_config, w_started)"
  by (simp add: startup_def gap_env_def ex_env_def ex_read_config_def subprocess_run_def
      emit_def ex_exec_def w0_def w_started_def ex_config_def)

lemma gap_listing:
  "list_artifacts gap_env ex_config w_started = Some (Inr (ex_page1 @ ex_page3), gap_listed)"
proof -
  have cr: "\<And>url. get_netrc_auth gap_env url = Some ex_cred"
    by (simp add: gap_env_def ex_env_def ex_netrc_def ex_cred_def)
  have p1: "http gap_env (artifacts_url ''acme/app'')
      = Inr (Json \<lparr>total_count = Some 3, artifacts = Some ex_page1\<rparr>)"
    by (simp add: gap_env_def gap_http_def)
  have p2: "http gap_env (page_url ''acme/app'' 2)
      = Inr (Json \<lparr>total_count = Some 3, artifacts = Some []\<rparr>)"
    by (simp add: gap_env_def gap_http_def page_url_neq_artifacts_url)
  have p3: "http gap_env (page_url ''acme/app'' 3)
      = Inr (Json \<lparr>total_count = Some 3, artifacts = Some ex_page3\<rparr>)"
    using ex_page_urls(1) by (simp add: gap_env_def gap_http_def page_url_neq_artifacts_url)
  let ?w1 = "emit (HttpGet (artifacts_url ''acme/app'') ex_cred) w_started"
  let ?w2 = "emit (HttpGet (page_url ''acme/app'' 2) ex_cred) ?w1"
  let ?w3 = "emit (HttpGet (page_url ''acme/app'' 3) ex_cred) ?w2"
  have "list_artifacts gap_env ex_config w_started = fetch_loop gap_env ''acme/app'' 3 2 ex_page1 ?w1"
    by (rule list_artifacts_first_page[OF _ cr p1]) (simp add: ex_config_def)
  also have "\<dots> = fetch_loop gap_env ''acme/app'' 3 (2 + 1) (ex_page1 @ []) ?w2"
    by (rule fetch_loop_step[OF _ cr p2]) (simp_all add: ex_page1_def)
  also have "\<dots> = fetch_loop gap_env ''acme/app'' 3 3 ex_page1 ?w2" by simp
  also have "\<dots> = fetch_loop gap_env ''acme/app'' 3 (3 + 1) (ex_page1 @ ex_page3) ?w3"
    by (rule fetch_loop_step[OF _ cr p3]) (simp_all add: ex_page1_def)
  also have "\<dots> = Some (Inr (ex_page1 @ ex_page3), ?w3)"
    by (rule fetch_loop_done) (simp add: ex_page1_def ex_page3_def)
  also have "?w3 = gap_listed"
    by (simp add: emit_def w_started_def gap_listed_def)
  finally show ?thesis .
qed

theorem empty_page_then_more_counterexample:
  "http gap_env (page_url ''acme/app'' 2)
     = Inr (Json \<lparr>total_count = Some 3, artifacts = Some []\<rparr>)
   \<and> int (length ex_page1) < 3
   \<and> list_artifacts gap_env ex_config w_started
       = Some (Inr (ex_page1 @ ex_page3), gap_listed)
   \<and> main gap_env w0 \<noteq> None"
proof -
  have p2: "http gap_env (page_url ''acme/app'' 2)
      = Inr (Json \<lparr>total_count = Some 3, artifacts = Some []\<rparr>)"
    by (simp add: gap_env_def gap_http_def page_url_neq_artifacts_url)
  have "main gap_env w0 \<noteq> None"
    by (simp add: main_def gap_startup gap_listing)
  then show ?thesis using p2 gap_listing by (simp add: ex_page1_def)
qed

subsection \<open>The root check\<close>

text \<open>
  C8. When the command line is well formed, the configuration loads and its
  \<open>allow_root\<close> is absent or false, a run whose effective user id is 0 ends at once
  with \<open>sys.exit(1)\<close>. All it has done by then is print the refusal: no request was
  sent, no command was run, no file was created.
\<close>

theorem root_without_opt_in_exits:
  assumes "length (argv en) = 2"
    and "read_config en (argv en ! 1) = Inr c"
    and "allow_root c \<noteq> Some True"
    and "geteuid en = 0"
  shows "\<exists>w'. main en w = Some (Inl (SystemExit 1), w')
           \<and> exit_status (Inl (SystemExit 1)) \<noteq> 0
           \<and> trace w' = trace w @ [Print ''you aren't supposed to run this as root'']
           \<and> tmpfs w' = tmpfs w"
  using assms by (simp add: main_def startup_def exit_status_def emit_def)

theorem root_without_opt_in_exits_witness:
  "length (argv root_env) = 2
   \<and> read_config root_env (argv root_env ! 1) = Inr ex_config
   \<and> allow_root ex_config \<noteq> Some True
   \<and> geteuid root_env = 0
   \<and> main root_env w0 = Some (Inl (SystemExit 1), w_refused)"
proof -
  have h1: "length (argv root_env) = 2" by (simp add: root_env_def ex_env_def)
  have h2: "read_config root_env (argv root_env ! 1) = Inr ex_config"
    by (simp add: root_env_def ex_env_def ex_read_config_def)
  have h3: "allow_root ex_config \<noteq> Some True" by (simp add: ex_config_def)
  have h4: "geteuid root_env = 0" by (simp add: root_env_def)
  from root_without_opt_in_exits[OF h1 h2 h3 h4, of w0]
  obtain w' where w': "main root_env w0 = Some (Inl (SystemExit 1), w')"
    "trace w' = trace w0 @ [Print ''you aren't supposed to run this as root'']"
    "tmpfs w' = tmpfs w0" by blast
  have "w' = w_refused" using w'(2,3) by (simp add: w0_def w_refused_def)
  then show ?thesis using h1 h2 h3 h4 w'(1) by simp
qed

subsection \<open>An empty selection\<close>

lemma freshest_Nil: "freshest [] = Inl IndexError"
  by (simp add: freshest_def sort_reverse_def)

lemma main_after_listing:
  "startup en ws = (Inr c, w1) \<Longrightarrow> list_artifacts en c w1 = Some (Inr all_artifacts, w2) \<Longrightarrow>
   main en ws = Some (after_listing en c all_artifacts w2)"
  by (simp add: main_def)

text \<open>
  C1, as the script has it. When the configuration names an artifact and no record of
  the listing passes the name and branch filters, the selection does not succeed: taking
  element 0 of the empty list raises \<open>IndexError\<close>. The run ends there, in the world the
  listing left: nothing was downloaded or staged and no command was run. There is no
  error of its own for this case.
\<close>

theorem no_match_raises_index_error:
  assumes "startup en ws = (Inr c, w1)"
    and "list_artifacts en c w1 = Some (Inr all_artifacts, w2)"
    and "artifact c = Some a"
    and "\<forall>art\<in>set all_artifacts. \<not> (name art = a
           \<and> (branch c = None \<or> branch c = Some [] \<or> branch c = Some (head_branch art)))"
  shows "select_artifact c all_artifacts = Inl IndexError
       \<and> main en ws = Some (Inl IndexError, w2)
       \<and> exit_status (Inl IndexError) = 1"
proof -
  have "wanted_artifacts c all_artifacts = Inr []"
  proof (cases "all_artifacts = []")
    case True
    then show ?thesis by (simp add: wanted_artifacts_def)
  next
    case False
    have br: "\<And>art. (want_branch c = [] \<or> head_branch art = want_branch c)
        \<longleftrightarrow> (branch c = None \<or> branch c = Some [] \<or> branch c = Some (head_branch art))"
      by (auto simp: want_branch_def split: option.splits)
    have "filter (\<lambda>art. name art = a
              \<and> (branch c = None \<or> branch c = Some [] \<or> branch c = Some (head_branch art)))
            all_artifacts = []"
      using assms(4) by (simp add: filter_empty_conv)
    then show ?thesis using False assms(3) by (simp add: wanted_artifacts_def br)
  qed
  then have sel: "select_artifact c all_artifacts = Inl IndexError"
    by (simp add: select_artifact_def freshest_Nil)
  then have "after_listing en c all_artifacts w2 = (Inl IndexError, w2)"
    by (simp add: after_listing_def)
  then show ?thesis
    using sel main_after_listing[OF assms(1,2)] by (simp add: exit_status_def)
qed

lemma nomatch_startup: "startup nomatch_env w0 = (Inr nomatch_config, w_started)"
  by (simp add: startup_def nomatch_env_def ex_env_def nomatch_read_config_def
      subprocess_run_def emit_def ex_exec_def w0_def w_started_def nomatch_config_def
      ex_config_def)

lemma ex_listing:
  assumes "repo c = Some ''acme/app''"
    and "get_netrc_auth en = get_netrc_auth ex_env"
    and "http en = http ex_env"
  shows "list_artifacts en c w_started = Some (Inr (ex_page1 @ ex_page2 @ ex_page3), ex_listed)"
proof -
  have cr: "\<forall>url. get_netrc_auth en url = Some ex_cred"
    using assms(2) by (simp add: ex_env_def ex_netrc_def ex_cred_def)
  have h5: "[] \<notin> set [ex_page2, ex_page3]" by (simp add: ex_page2_def ex_page3_def)
  have h6: "(5::nat) = length ex_page1 + length (concat [ex_page2, ex_page3])"
    by (simp add: ex_page1_def ex_page2_def ex_page3_def)
  have p1: "http en (artifacts_url ''acme/app'')
     = Inr (Json \<lparr>total_count = Some (int 5), artifacts = Some ex_page1\<rparr>)"
    using ex_http_first assms(3) by simp
  have pr: "\<forall>k<length [ex_page2, ex_page3]. \<exists>tc. http en (page_url ''acme/app'' (k + 2))
     = Inr (Json \<lparr>total_count = tc, artifacts = Some ([ex_page2, ex_page3] ! k)\<rparr>)"
    using ex_http_rest assms(3) by simp
  from list_artifacts_pages[OF assms(1) cr p1 pr h5 h6, of w_started]
  obtain w' where w': "list_artifacts en c w_started
        = Some (Inr (ex_page1 @ concat [ex_page2, ex_page3]), w')"
    "trace w' = trace w_started @ HttpGet (artifacts_url ''acme/app'') ex_cred
                 # map (\<lambda>k. HttpGet (page_url ''acme/app'' k) ex_cred)
                     [2..<2 + length [ex_page2, ex_page3]]"
    "tmpfs w' = tmpfs w_started" by blast
  have "[2..<2 + length [ex_page2, ex_page3]] = [2, 3]"
    by (simp add: upt_rec)
  then have "w' = ex_listed"
    using w'(2,3) by (simp add: w_started_def ex_listed_def)
  then show ?thesis using w'(1) by simp
qed

theorem no_match_raises_index_error_witness:
  "startup nomatch_env w0 = (Inr nomatch_config, w_started)
   \<and> list_artifacts nomatch_env nomatch_config w_started
       = Some (Inr (ex_page1 @ ex_page2 @ ex_page3), ex_listed)
   \<and> artifact nomatch_config = Some ''web''
   \<and> select_artifact nomatch_config (ex_page1 @ ex_page2 @ ex_page3) = Inl IndexError
   \<and> main nomatch_env w0 = Some (Inl IndexError, ex_listed)"
proof -
  have l: "list_artifacts nomatch_env nomatch_config w_started
       = Some (Inr (ex_page1 @ ex_page2 @ ex_page3), ex_listed)"
    by (rule ex_listing) (simp_all add: nomatch_config_def ex_config_def nomatch_env_def)
  have a: "artifact nomatch_config = Some ''web''" by (simp add: nomatch_config_def)
  have n: "\<forall>art\<in>set (ex_page1 @ ex_page2 @ ex_page3). \<not> (name art = ''web''
           \<and> (branch nomatch_config = None \<or> branch nomatch_config = Some []
              \<or> branch nomatch_config = Some (head_branch art)))"
    by (simp add: ex_page1_def ex_page2_def ex_page3_def ex_art_def)
  from no_match_raises_index_error[OF nomatch_startup l a n]
  show ?thesis using nomatch_startup l a by blast
qed

theorem no_match_error_counterexample:
  "wanted_artifacts nomatch_config (ex_page1 @ ex_page2 @ ex_page3) = Inr []
   \<and> select_artifact nomatch_config (ex_page1 @ ex_page2 @ ex_page3) = Inl IndexError
   \<and> select_artifact nomatch_config (ex_page1 @ ex_page2 @ ex_page3) \<noteq> Inl NoMatchError
   \<and> main nomatch_env w0 = Some (Inl IndexError, ex_listed)
   \<and> main nomatch_env w0 \<noteq> Some (Inl NoMatchError, ex_listed)"
proof -
  have w: "wanted_artifacts nomatch_config (ex_page1 @ ex_page2 @ ex_page3) = Inr []"
    by (simp add: wanted_artifacts_def want_branch_def nomatch_config_def ex_config_def
        ex_page1_def ex_page2_def ex_page3_def ex_art_def)
  then have s: "select_artifact nomatch_config (ex_page1 @ ex_page2 @ ex_page3) = Inl IndexError"
    by (simp add: select_artifact_def freshest_Nil)
  have l: "list_artifacts nomatch_env nomatch_config w_started
       = Some (Inr (ex_page1 @ ex_page2 @ ex_page3), ex_listed)"
    by (rule ex_listing) (simp_all add: nomatch_config_def ex_config_def nomatch_env_def)
  have "main nomatch_env w0 = Some (Inl IndexError, ex_listed)"
    using main_after_listing[OF nomatch_startup l] s by (simp add: after_listing_def)
  then show ?thesis using w s by simp
qed

subsection \<open>Extraction\<close>

lemma named_temporary_file_Inr:
  assumes "named_temporary_file en content w = (Inr n, w1)"
  shows "n \<notin> fst ` set (tmpfs w) \<and> tmpfs w1 = tmpfs w @ [(n, content)] \<and> trace w1 = trace w"
  using assms by (auto simp: named_temporary_file_def Let_def split: if_splits)

lemma named_temporary_file_fresh:
  assumes "\<forall>existing. tmp_name en existing \<notin> set existing"
  shows "\<exists>n w1. named_temporary_file en content w = (Inr n, w1)"
proof -
  from assms have "tmp_name en (map fst (tmpfs w)) \<notin> set (map fst (tmpfs w))" by blast
  then show ?thesis by (simp add: named_temporary_file_def Let_def)
qed

lemma dict_set_new: "k \<notin> fst ` set d \<Longrightarrow> dict_set d k v = d @ [(k, v)]"
  by (induction d) auto

lemma zip_open_member: "e \<in> set z \<Longrightarrow> \<exists>b. zip_open z (filename e) = Inr b"
  by (auto simp: zip_open_def Let_def filter_empty_conv)

lemma zip_entries_loop_Inr:
  assumes "zip_entries_loop en z pc entries d w = (Inr d', w')"
    and "fst ` set d \<subseteq> fst ` set (tmpfs w)"
  shows "\<exists>staged. tmpfs w' = tmpfs w @ staged \<and> trace w' = trace w
           \<and> list_all2 (\<lambda>f e. zip_open z (filename e) = Inr (snd f)) staged
                (matching_entries en entries (fst pc))
           \<and> d' = d @ zip (map fst staged)
                        (map (pattern_target pc) (matching_entries en entries (fst pc)))
           \<and> distinct (map fst staged)
           \<and> fst ` set staged \<inter> fst ` set (tmpfs w) = {}"
  using assms
proof (induction entries arbitrary: d w)
  case Nil
  then show ?case by (simp add: matching_entries_def)
next
  case (Cons e es)
  show ?case
  proof (cases "\<not> is_dir e \<and> fnmatch en (filename e) (fst pc)")
    case False
    then have m: "matching_entries en (e # es) (fst pc) = matching_entries en es (fst pc)"
      by (simp add: matching_entries_def)
    from False have "zip_entries_loop en z pc es d w = (Inr d', w')"
      using Cons.prems(1) by (auto split: if_splits)
    from Cons.IH[OF this Cons.prems(2)] show ?thesis unfolding m .
  next
    case True
    then have m: "matching_entries en (e # es) (fst pc) = e # matching_entries en es (fst pc)"
      by (simp add: matching_entries_def)
    from True Cons.prems(1) obtain b where b: "zip_open z (filename e) = Inr b"
      by (auto split: sum.splits)
    from True Cons.prems(1) b obtain n w1 where
      ntf: "named_temporary_file en b w = (Inr n, w1)"
      by (auto split: sum.splits prod.splits)
    let ?t = "pattern_target pc e"
    have rec: "zip_entries_loop en z pc es (dict_set d n ?t) w1 = (Inr d', w')"
      using True Cons.prems(1) b ntf by (simp add: pattern_target_def)
    from named_temporary_file_Inr[OF ntf] have
      fresh: "n \<notin> fst ` set (tmpfs w)" and fs1: "tmpfs w1 = tmpfs w @ [(n, b)]"
      and tr1: "trace w1 = trace w" by auto
    have nd: "n \<notin> fst ` set d" using fresh Cons.prems(2) by auto
    then have ds: "dict_set d n ?t = d @ [(n, ?t)]" by (rule dict_set_new)
    have keys: "fst ` set (dict_set d n ?t) \<subseteq> fst ` set (tmpfs w1)"
      using Cons.prems(2) by (auto simp: ds fs1)
    from Cons.IH[OF rec keys] obtain staged where st:
      "tmpfs w' = tmpfs w1 @ staged" "trace w' = trace w1"
      "list_all2 (\<lambda>f e. zip_open z (filename e) = Inr (snd f)) staged
                (matching_entries en es (fst pc))"
      "d' = dict_set d n ?t @ zip (map fst staged)
                        (map (pattern_target pc) (matching_entries en es (fst pc)))"
      "distinct (map fst staged)"
      "fst ` set staged \<inter> fst ` set (tmpfs w1) = {}"
      by blast
    let ?staged = "(n, b) # staged"
    have "tmpfs w' = tmpfs w @ ?staged" using st(1) fs1 by simp
    moreover have "trace w' = trace w" using st(2) tr1 by simp
    moreover have "list_all2 (\<lambda>f e. zip_open z (filename e) = Inr (snd f)) ?staged
                (matching_entries en (e # es) (fst pc))"
      using st(3) b m by simp
    moreover have "d' = d @ zip (map fst ?staged)
                        (map (pattern_target pc) (matching_entries en (e # es) (fst pc)))"
      using st(4) ds m by simp
    moreover have "distinct (map fst ?staged)"
      using st(5) st(6) fs1 by auto
    moreover have "fst ` set ?staged \<inter> fst ` set (tmpfs w) = {}"
      using st(6) fs1 fresh by auto
    ultimately show ?thesis by blast
  qed
qed

lemma zip_entries_loop_succeeds:
  assumes "\<forall>existing. tmp_name en existing \<notin> set existing"
    and "set entries \<subseteq> set z"
  shows "\<exists>d' w'. zip_entries_loop en z pc entries d w = (Inr d', w')"
  using assms(2)
proof (induction entries arbitrary: d w)
  case Nil
  then show ?case by simp
next
  case (Cons e es)
  then have es: "set es \<subseteq> set z" and ez: "e \<in> set z" by auto
  obtain b where b: "zip_open z (filename e) = Inr b" using zip_open_member[OF ez] by blast
  obtain n w1 where ntf: "named_temporary_file en b w = (Inr n, w1)"
    using named_temporary_file_fresh[OF assms(1)] by blast
  show ?case using Cons.IH[OF es] b ntf by simp
qed

text \<open>
  C5. One pattern rule (pattern, target-dir) is run over the archive, with any
  dictionary so far whose keys are existing temporary files. If the loop returns, the
  files it created are, in archive order, one for each member that is not a directory and
  whose complete name, not its last component, is matched by the pattern, and for no
  other member; each holds what opening the member by name reads, and the dictionary gains
  one entry per file, in the same order, whose value is \<open>os.path.join\<close> of the rule's
  target directory and the base name of the member. Nothing else changes. The loop does
  return whenever the temporary directory hands out unused names.
\<close>

theorem pattern_rule_stages_matching_members:
  assumes "fst ` set d \<subseteq> fst ` set (tmpfs w)"
  shows "(\<forall>d' w'. zip_entries_loop en z (pattern, target_dir) z d w = (Inr d', w') \<longrightarrow>
            (\<exists>staged. tmpfs w' = tmpfs w @ staged \<and> trace w' = trace w
               \<and> list_all2 (\<lambda>f e. zip_open z (filename e) = Inr (snd f)) staged
                    (filter (\<lambda>e. \<not> is_dir e \<and> fnmatch en (filename e) pattern) z)
               \<and> d' = d @ zip (map fst staged)
                     (map (\<lambda>e. path_join target_dir (basename (filename e)))
                        (filter (\<lambda>e. \<not> is_dir e \<and> fnmatch en (filename e) pattern) z))
               \<and> distinct (map fst staged)
               \<and> fst ` set staged \<inter> fst ` set (tmpfs w) = {}))
       \<and> ((\<forall>existing. tmp_name en existing \<notin> set existing) \<longrightarrow>
            (\<exists>d' w'. zip_entries_loop en z (pattern, target_dir) z d w = (Inr d', w')))"
proof -
  have pt: "pattern_target (pattern, target_dir)
      = (\<lambda>e. path_join target_dir (basename (filename e)))"
    by (auto simp: pattern_target_def)
  have "\<exists>staged. tmpfs w' = tmpfs w @ staged \<and> trace w' = trace w
               \<and> list_all2 (\<lambda>f e. zip_open z (filename e) = Inr (snd f)) staged
                    (filter (\<lambda>e. \<not> is_dir e \<and> fnmatch en (filename e) pattern) z)
               \<and> d' = d @ zip (map fst staged)
                     (map (\<lambda>e. path_join target_dir (basename (filename e)))
                        (filter (\<lambda>e. \<not> is_dir e \<and> fnmatch en (filename e) pattern) z))
               \<and> distinct (map fst staged)
               \<and> fst ` set staged \<inter> fst ` set (tmpfs w) = {}"
    if "zip_entries_loop en z (pattern, target_dir) z d w = (Inr d', w')" for d' w'
    using zip_entries_loop_Inr[OF that assms] by (simp add: pt matching_entries_def)
  moreover have "\<exists>d' w'. zip_entries_loop en z (pattern, target_dir) z d w = (Inr d', w')"
    if "\<forall>existing. tmp_name en existing \<notin> set existing"
    using zip_entries_loop_succeeds[OF that, of z z] by simp
  ultimately show ?thesis by blast
qed

lemma ex_so_rule:
  "zip_entries_loop ex_env ex_zip (''*.so'', ''/opt/app/lib'') ex_zip [] w0
   = (Inr [(''/tmp/tmp'', ''/opt/app/lib/x.so''), (''/tmp/tmpa'', ''/opt/app/lib/z.so''),
           (''/tmp/tmpaa'', ''/opt/app/lib/x.so'')],
      \<lparr>trace = [],
         tmpfs = [(''/tmp/tmp'', ''X''), (''/tmp/tmpa'', ''Z''), (''/tmp/tmpaa'', ''T'')]\<rparr>)"
  by code_simp

lemma ex_base_name_rule:
  "zip_entries_loop ex_env ex_zip (''x.so'', ''/opt/app/lib'') ex_zip [] w0
   = (Inr [(''/tmp/tmp'', ''/opt/app/lib/x.so'')],
      \<lparr>trace = [], tmpfs = [(''/tmp/tmp'', ''T'')]\<rparr>)"
  by code_simp

lemma ex_star_rule:
  "zip_entries_loop ex_env ex_zip (''*'', ''/srv/'') ex_zip [] w0
   = (Inr [(''/tmp/tmp'', ''/srv/app''), (''/tmp/tmpa'', ''/srv/x.so''),
           (''/tmp/tmpaa'', ''/srv/y.txt''), (''/tmp/tmpaaa'', ''/srv/z.so''),
           (''/tmp/tmpaaaa'', ''/srv/x.so'')],
      \<lparr>trace = [],
         tmpfs = [(''/tmp/tmp'', ''ELF''), (''/tmp/tmpa'', ''X''), (''/tmp/tmpaa'', ''Y''),
                  (''/tmp/tmpaaa'', ''Z''), (''/tmp/tmpaaaa'', ''T'')]\<rparr>)"
  by code_simp

theorem pattern_rule_stages_matching_members_witness:
  "fst ` set ([] :: (string \<times> string) list) \<subseteq> fst ` set (tmpfs w0)
   \<and> zip_entries_loop ex_env ex_zip (''*.so'', ''/opt/app/lib'') ex_zip [] w0
       = (Inr [(''/tmp/tmp'', ''/opt/app/lib/x.so''), (''/tmp/tmpa'', ''/opt/app/lib/z.so''),
               (''/tmp/tmpaa'', ''/opt/app/lib/x.so'')],
          \<lparr>trace = [],
             tmpfs = [(''/tmp/tmp'', ''X''), (''/tmp/tmpa'', ''Z''), (''/tmp/tmpaa'', ''T'')]\<rparr>)
   \<and> (\<exists>staged.
         [(''/tmp/tmp'', ''X''), (''/tmp/tmpa'', ''Z''), (''/tmp/tmpaa'', ''T'')]
           = tmpfs w0 @ staged
       \<and> list_all2 (\<lambda>f e. zip_open ex_zip (filename e) = Inr (snd f)) staged
            (filter (\<lambda>e. \<not> is_dir e \<and> fnmatch ex_env (filename e) ''*.so'') ex_zip)
       \<and> [(''/tmp/tmp'', ''/opt/app/lib/x.so''), (''/tmp/tmpa'', ''/opt/app/lib/z.so''),
               (''/tmp/tmpaa'', ''/opt/app/lib/x.so'')]
           = [] @ zip (map fst staged)
               (map (\<lambda>e. path_join ''/opt/app/lib'' (basename (filename e)))
                  (filter (\<lambda>e. \<not> is_dir e \<and> fnmatch ex_env (filename e) ''*.so'') ex_zip)))
   \<and> zip_entries_loop ex_env ex_zip (''x.so'', ''/opt/app/lib'') ex_zip [] w0
       = (Inr [(''/tmp/tmp'', ''/opt/app/lib/x.so'')],
          \<lparr>trace = [], tmpfs = [(''/tmp/tmp'', ''T'')]\<rparr>)"
proof -
  have h: "fst ` set ([] :: (string \<times> string) list) \<subseteq> fst ` set (tmpfs w0)" by simp
  from pattern_rule_stages_matching_members[OF h, of ex_env ex_zip "''*.so''" "''/opt/app/lib''"]
    ex_so_rule
  have "\<exists>staged. tmpfs \<lparr>trace = [],
             tmpfs = [(''/tmp/tmp'', ''X''), (''/tmp/tmpa'', ''Z''), (''/tmp/tmpaa'', ''T'')]\<rparr>
           = tmpfs w0 @ staged
       \<and> trace \<lparr>trace = [],
             tmpfs = [(''/tmp/tmp'', ''X''), (''/tmp/tmpa'', ''Z''), (''/tmp/tmpaa'', ''T'')]\<rparr>
           = trace w0
       \<and> list_all2 (\<lambda>f e. zip_open ex_zip (filename e) = Inr (snd f)) staged
            (filter (\<lambda>e. \<not> is_dir e \<and> fnmatch ex_env (filename e) ''*.so'') ex_zip)
       \<and> [(''/tmp/tmp'', ''/opt/app/lib/x.so''), (''/tmp/tmpa'', ''/opt/app/lib/z.so''),
               (''/tmp/tmpaa'', ''/opt/app/lib/x.so'')]
           = [] @ zip (map fst staged)
               (map (\<lambda>e. path_join ''/opt/app/lib'' (basename (filename e)))
                  (filter (\<lambda>e. \<not> is_dir e \<and> fnmatch ex_env (filename e) ''*.so'') ex_zip))
       \<and> distinct (map fst staged)
       \<and> fst ` set staged \<inter> fst ` set (tmpfs w0) = {}"
    by blast
  then obtain staged where
    "[(''/tmp/tmp'', ''X''), (''/tmp/tmpa'', ''Z''), (''/tmp/tmpaa'', ''T'')]
           = tmpfs w0 @ staged"
    "list_all2 (\<lambda>f e. zip_open ex_zip (filename e) = Inr (snd f)) staged
            (filter (\<lambda>e. \<not> is_dir e \<and> fnmatch ex_env (filename e) ''*.so'') ex_zip)"
    "[(''/tmp/tmp'', ''/opt/app/lib/x.so''), (''/tmp/tmpa'', ''/opt/app/lib/z.so''),
               (''/tmp/tmpaa'', ''/opt/app/lib/x.so'')]
           = [] @ zip (map fst staged)
               (map (\<lambda>e. path_join ''/opt/app/lib'' (basename (filename e)))
                  (filter (\<lambda>e. \<not> is_dir e \<and> fnmatch ex_env (filename e) ''*.so'') ex_zip))"
    by auto
  then show ?thesis using h ex_so_rule ex_base_name_rule by blast
qed

subsection \<open>The recorded mapping\<close>

lemma copy_files_loop_Inr:
  assumes "copy_files_loop en z files d w = (Inr d', w')"
    and "fst ` set d \<subseteq> fst ` set (tmpfs w)"
  shows "\<exists>staged. tmpfs w' = tmpfs w @ staged \<and> trace w' = trace w
           \<and> length staged = length files
           \<and> d' = d @ zip (map fst staged) (map snd files)
           \<and> distinct (map fst staged)
           \<and> fst ` set staged \<inter> fst ` set (tmpfs w) = {}"
  using assms
proof (induction files arbitrary: d w)
  case Nil
  then show ?case by simp
next
  case (Cons fc fs)
  from Cons.prems(1) obtain b where b: "zip_open z (fst fc) = Inr b"
    by (auto split: sum.splits)
  from Cons.prems(1) b obtain n w1 where
    ntf: "named_temporary_file en b w = (Inr n, w1)"
    by (auto split: sum.splits prod.splits)
  have rec: "copy_files_loop en z fs (dict_set d n (snd fc)) w1 = (Inr d', w')"
    using Cons.prems(1) b ntf by simp
  from named_temporary_file_Inr[OF ntf] have
    fresh: "n \<notin> fst ` set (tmpfs w)" and fs1: "tmpfs w1 = tmpfs w @ [(n, b)]"
    and tr1: "trace w1 = trace w" by auto
  have nd: "n \<notin> fst ` set d" using fresh Cons.prems(2) by auto
  then have ds: "dict_set d n (snd fc) = d @ [(n, snd fc)]" by (rule dict_set_new)
  have keys: "fst ` set (dict_set d n (snd fc)) \<subseteq> fst ` set (tmpfs w1)"
    using Cons.prems(2) by (auto simp: ds fs1)
  from Cons.IH[OF rec keys] obtain staged where st:
    "tmpfs w' = tmpfs w1 @ staged" "trace w' = trace w1"
    "length staged = length fs"
    "d' = dict_set d n (snd fc) @ zip (map fst staged) (map snd fs)"
    "distinct (map fst staged)"
    "fst ` set staged \<inter> fst ` set (tmpfs w1) = {}"
    by blast
  let ?staged = "(n, b) # staged"
  have "tmpfs w' = tmpfs w @ ?staged" using st(1) fs1 by simp
  moreover have "trace w' = trace w" using st(2) tr1 by simp
  moreover have "length ?staged = length (fc # fs)" using st(3) by simp
  moreover have "d' = d @ zip (map fst ?staged) (map snd (fc # fs))"
    using st(4) ds by simp
  moreover have "distinct (map fst ?staged)" using st(5) st(6) fs1 by auto
  moreover have "fst ` set ?staged \<inter> fst ` set (tmpfs w) = {}"
    using st(6) fs1 fresh by auto
  ultimately show ?case by blast
qed

lemma copy_patterns_loop_Inr:
  assumes "copy_patterns_loop en z pcs d w = (Inr d', w')"
    and "fst ` set d \<subseteq> fst ` set (tmpfs w)"
  shows "\<exists>staged. tmpfs w' = tmpfs w @ staged \<and> trace w' = trace w
           \<and> length staged
               = length (concat (map (\<lambda>pc. map (pattern_target pc)
                                      (matching_entries en z (fst pc))) pcs))
           \<and> d' = d @ zip (map fst staged)
                     (concat (map (\<lambda>pc. map (pattern_target pc)
                                      (matching_entries en z (fst pc))) pcs))
           \<and> distinct (map fst staged)
           \<and> fst ` set staged \<inter> fst ` set (tmpfs w) = {}"
  using assms
proof (induction pcs arbitrary: d w)
  case Nil
  then show ?case by simp
next
  case (Cons pc pcs)
  from Cons.prems(1) obtain d1 w1 where
    one: "zip_entries_loop en z pc z d w = (Inr d1, w1)"
    and rec: "copy_patterns_loop en z pcs d1 w1 = (Inr d', w')"
    by (auto split: sum.splits prod.splits)
  let ?ts = "map (pattern_target pc) (matching_entries en z (fst pc))"
  from zip_entries_loop_Inr[OF one Cons.prems(2)] obtain s1 where s1:
    "tmpfs w1 = tmpfs w @ s1" "trace w1 = trace w"
    "list_all2 (\<lambda>f e. zip_open z (filename e) = Inr (snd f)) s1
        (matching_entries en z (fst pc))"
    "d1 = d @ zip (map fst s1) ?ts"
    "distinct (map fst s1)"
    "fst ` set s1 \<inter> fst ` set (tmpfs w) = {}"
    by blast
  have len1: "length s1 = length ?ts" using s1(3) by (simp add: list_all2_lengthD)
  have "fst ` set (zip (map fst s1) ?ts) \<subseteq> fst ` set s1"
    using len1 by (auto dest!: set_zip_leftD)
  then have keys: "fst ` set d1 \<subseteq> fst ` set (tmpfs w1)"
    using Cons.prems(2) s1(1) s1(4) by auto
  let ?rest = "concat (map (\<lambda>pc. map (pattern_target pc)
                                      (matching_entries en z (fst pc))) pcs)"
  from Cons.IH[OF rec keys] obtain s2 where s2:
    "tmpfs w' = tmpfs w1 @ s2" "trace w' = trace w1"
    "length s2 = length ?rest"
    "d' = d1 @ zip (map fst s2) ?rest"
    "distinct (map fst s2)"
    "fst ` set s2 \<inter> fst ` set (tmpfs w1) = {}"
    by blast
  let ?staged = "s1 @ s2"
  have "tmpfs w' = tmpfs w @ ?staged" using s1(1) s2(1) by simp
  moreover have "trace w' = trace w" using s1(2) s2(2) by simp
  moreover have "length ?staged = length (concat (map (\<lambda>pc. map (pattern_target pc)
                                      (matching_entries en z (fst pc))) (pc # pcs)))"
    using len1 s2(3) by simp
  moreover have "d' = d @ zip (map fst ?staged)
                     (concat (map (\<lambda>pc. map (pattern_target pc)
                                      (matching_entries en z (fst pc))) (pc # pcs)))"
    using s1(4) s2(4) len1 by simp
  moreover have "distinct (map fst ?staged)"
    using s1(5) s2(5) s2(6) s1(1) by auto
  moreover have "fst ` set ?staged \<inter> fst ` set (tmpfs w) = {}"
    using s1(6) s2(6) s1(1) by auto
  ultimately show ?case by blast
qed

lemma extract_files_Inr:
  assumes "extract_files en c z w = (Inr d, w1)"
  shows "\<exists>staged. tmpfs w1 = tmpfs w @ staged \<and> trace w1 = trace w
           \<and> map fst d = map fst staged
           \<and> map snd d = expected_targets en c z
           \<and> distinct (map fst staged)
           \<and> fst ` set staged \<inter> fst ` set (tmpfs w) = {}"
proof -
  from assms obtain d0 w0' where
    files: "copy_files_loop en z (copy_files c) [] w = (Inr d0, w0')"
    and pats: "copy_patterns_loop en z (copy_patterns c) d0 w0' = (Inr d, w1)"
    by (auto simp: extract_files_def split: sum.splits prod.splits)
  from copy_files_loop_Inr[OF files] obtain s1 where s1:
    "tmpfs w0' = tmpfs w @ s1" "trace w0' = trace w"
    "length s1 = length (copy_files c)"
    "d0 = [] @ zip (map fst s1) (map snd (copy_files c))"
    "distinct (map fst s1)"
    "fst ` set s1 \<inter> fst ` set (tmpfs w) = {}"
    by auto
  have "fst ` set (zip (map fst s1) (map snd (copy_files c))) \<subseteq> fst ` set s1"
    by (auto dest!: set_zip_leftD)
  then have keys: "fst ` set d0 \<subseteq> fst ` set (tmpfs w0')"
    using s1(1) s1(4) by auto
  let ?rest = "concat (map (\<lambda>pc. map (pattern_target pc)
                                      (matching_entries en z (fst pc))) (copy_patterns c))"
  from copy_patterns_loop_Inr[OF pats keys] obtain s2 where s2:
    "tmpfs w1 = tmpfs w0' @ s2" "trace w1 = trace w0'"
    "length s2 = length ?rest"
    "d = d0 @ zip (map fst s2) ?rest"
    "distinct (map fst s2)"
    "fst ` set s2 \<inter> fst ` set (tmpfs w0') = {}"
    by blast
  let ?staged = "s1 @ s2"
  have d: "d = zip (map fst ?staged) (map snd (copy_files c) @ ?rest)"
    using s1(3) s1(4) s2(4) by simp
  have len: "length (map fst ?staged) = length (map snd (copy_files c) @ ?rest)"
    using s1(3) s2(3) by simp
  have "tmpfs w1 = tmpfs w @ ?staged" using s1(1) s2(1) by simp
  moreover have "trace w1 = trace w" using s1(2) s2(2) by simp
  moreover have "map fst d = map fst ?staged"
    unfolding d using len by (simp only: map_fst_zip)
  moreover have "map snd d = expected_targets en c z"
    unfolding d expected_targets_def using len by (simp only: map_snd_zip)
  moreover have "distinct (map fst ?staged)"
    using s1(5) s2(5) s2(6) s1(1) by auto
  moreover have "fst ` set ?staged \<inter> fst ` set (tmpfs w) = {}"
    using s1(6) s2(6) s1(1) by auto
  ultimately show ?thesis by blast
qed

subsection \<open>Commands and clean-up\<close>

lemma subprocess_run_Inr:
  "subprocess_run en args w = (Inr st, w') \<Longrightarrow> w' = emit (ran en args) w"
  by (auto simp: subprocess_run_def ran_def split: sum.splits)

lemma subprocess_run_Inl:
  "subprocess_run en args w = (Inl e, w') \<Longrightarrow> w' = w"
  by (auto simp: subprocess_run_def split: sum.splits)

lemma run_each_Inr:
  "run_each en cmd xs w = (Inr (), w') \<Longrightarrow>
   trace w' = trace w @ map (\<lambda>x. ran en (cmd x)) xs \<and> tmpfs w' = tmpfs w"
proof (induction xs arbitrary: w)
  case Nil
  then show ?case by simp
next
  case (Cons x xs)
  from Cons.prems obtain st w1 where
    one: "subprocess_run en (cmd x) w = (Inr st, w1)"
    and rec: "run_each en cmd xs w1 = (Inr (), w')"
    by (auto split: sum.splits prod.splits)
  from subprocess_run_Inr[OF one] Cons.IH[OF rec] show ?case
    by (simp add: emit_trace emit_tmpfs)
qed

lemma run_each_any:
  "run_each en cmd xs w = (r, w') \<Longrightarrow>
   tmpfs w' = tmpfs w
   \<and> (\<exists>k\<le>length xs. trace w' = trace w @ map (\<lambda>x. ran en (cmd x)) (take k xs))"
proof (induction xs arbitrary: w)
  case Nil
  then show ?case by simp
next
  case (Cons x xs)
  show ?case
  proof (cases "subprocess_run en (cmd x) w")
    case (Pair r1 w1)
    show ?thesis
    proof (cases r1)
      case (Inl e)
      then have "w' = w" using Cons.prems Pair subprocess_run_Inl by fastforce
      then have "tmpfs w' = tmpfs w
          \<and> trace w' = trace w @ map (\<lambda>x. ran en (cmd x)) (take 0 (x # xs))" by simp
      then show ?thesis by blast
    next
      case (Inr st)
      then have rec: "run_each en cmd xs w1 = (r, w')" using Cons.prems Pair by simp
      have w1: "w1 = emit (ran en (cmd x)) w"
        using subprocess_run_Inr Pair Inr by blast
      from Cons.IH[OF rec] obtain k where k: "k \<le> length xs"
        "trace w' = trace w1 @ map (\<lambda>x. ran en (cmd x)) (take k xs)"
        "tmpfs w' = tmpfs w1" by blast
      have "Suc k \<le> length (x # xs)
          \<and> trace w' = trace w @ map (\<lambda>x. ran en (cmd x)) (take (Suc k) (x # xs))"
        using k w1 by (simp add: emit_trace)
      moreover have "tmpfs w' = tmpfs w" using k(3) w1 by (simp add: emit_tmpfs)
      ultimately show ?thesis by blast
    qed
  qed
qed

lemma run_each_returns:
  "\<forall>x\<in>set xs. \<exists>st. exec en (cmd x) = Inr st \<Longrightarrow> \<exists>w'. run_each en cmd xs w = (Inr (), w')"
proof (induction xs arbitrary: w)
  case Nil
  then show ?case by simp
next
  case (Cons x xs)
  then obtain st where "exec en (cmd x) = Inr st" by auto
  then have "subprocess_run en (cmd x) w = (Inr st, emit (Run (cmd x) st) w)"
    by (simp add: subprocess_run_def)
  then show ?case using Cons by simp
qed

lemma unlink_each_trace: "unlink_each ns w = (r, w') \<Longrightarrow> trace w' = trace w"
proof (induction ns arbitrary: w)
  case Nil
  then show ?case by simp
next
  case (Cons n ns)
  then show ?case
    by (auto simp: unlink_def split: if_splits)
qed

lemma unlink_each_staged:
  assumes "tmpfs w = base @ staged"
    and "distinct (map fst staged)"
    and "fst ` set staged \<inter> fst ` set base = {}"
  shows "\<exists>w'. unlink_each (map fst staged) w = (Inr (), w')
           \<and> tmpfs w' = base \<and> trace w' = trace w"
  using assms
proof (induction staged arbitrary: w)
  case Nil
  then show ?case by simp
next
  case (Cons s ss)
  let ?w1 = "w\<lparr>tmpfs := filter (\<lambda>f. fst f \<noteq> fst s) (tmpfs w)\<rparr>"
  have present: "fst s \<in> set (map fst (tmpfs w))" using Cons.prems(1) by simp
  then have u: "unlink (fst s) w = (Inr (), ?w1)" by (simp add: unlink_def)
  have nb: "fst s \<notin> fst ` set base" using Cons.prems(3) by auto
  have ns: "fst s \<notin> fst ` set ss" using Cons.prems(2) by simp
  have "filter (\<lambda>f. fst f \<noteq> fst s) base = base"
    unfolding filter_id_conv using nb by (metis image_eqI)
  moreover have "filter (\<lambda>f. fst f \<noteq> fst s) ss = ss"
    unfolding filter_id_conv using ns by (metis image_eqI)
  ultimately have t1: "tmpfs ?w1 = base @ ss" using Cons.prems(1) by simp
  have d: "distinct (map fst ss)" using Cons.prems(2) by simp
  have i: "fst ` set ss \<inter> fst ` set base = {}" using Cons.prems(3) by auto
  from Cons.IH[OF t1 d i] obtain w' where
    "unlink_each (map fst ss) ?w1 = (Inr (), w')" "tmpfs w' = base" "trace w' = trace ?w1"
    by blast
  then show ?case using u by simp
qed

lemma report_tmpfs: "report en services w = (r, w') \<Longrightarrow> tmpfs w' = tmpfs w"
  using run_each_any[of en status_cmd services "emit (Sleep_ms 1500) w" r w']
  by (auto simp: report_def emit_tmpfs split: if_splits)

lemma deploy_Inr_trace:
  assumes "deploy en c d w = (Inr (), w')"
  shows "trace w' = trace w
           @ map (\<lambda>s. ran en (stop_cmd s)) (systemd_services c)
           @ map (\<lambda>m. ran en (cp_cmd m)) d
           @ map (\<lambda>s. ran en (start_cmd s)) (systemd_services c)
           @ (if systemd_services c = [] then []
              else Sleep_ms 1500 # map (\<lambda>s. ran en (status_cmd s)) (systemd_services c))"
proof -
  from assms obtain w1 w2 w3 w4 where
    p1: "run_each en stop_cmd (systemd_services c) w = (Inr (), w1)"
    and p2: "run_each en cp_cmd d w1 = (Inr (), w2)"
    and p3: "run_each en start_cmd (systemd_services c) w2 = (Inr (), w3)"
    and p4: "unlink_each (map fst d) w3 = (Inr (), w4)"
    and p5: "report en (systemd_services c) w4 = (Inr (), w')"
    by (auto simp: deploy_def split: sum.splits prod.splits)
  have t4: "trace w4 = trace w
           @ map (\<lambda>s. ran en (stop_cmd s)) (systemd_services c)
           @ map (\<lambda>m. ran en (cp_cmd m)) d
           @ map (\<lambda>s. ran en (start_cmd s)) (systemd_services c)"
    using run_each_Inr[OF p1] run_each_Inr[OF p2] run_each_Inr[OF p3] unlink_each_trace[OF p4]
    by simp
  show ?thesis
  proof (cases "systemd_services c = []")
    case True
    then show ?thesis using p5 t4 by (simp add: report_def)
  next
    case False
    then have "run_each en status_cmd (systemd_services c) (emit (Sleep_ms 1500) w4)
        = (Inr (), w')"
      using p5 by (simp add: report_def)
    from run_each_Inr[OF this] show ?thesis using False t4 by (simp add: emit_trace)
  qed
qed

text \<open>
  C6. When the extraction returns the mapping, its values are the targets of the
  explicit \<open>copy-files\<close> entries in list order, followed, rule by rule in the order of
  \<open>copy-patterns\<close>, by the destinations of the rule's matches in archive order; its keys
  are different temporary files, so no entry ever replaced another and the order of the
  dictionary is the order of recording. A deployment that runs to its end then issues,
  between the stop and the start commands, one \<open>sudo cp\<close> per entry in exactly that
  order.
\<close>

theorem recording_order_is_copy_order:
  assumes "extract_files en c z w = (Inr temp_to_target, w1)"
  shows "map snd temp_to_target
           = map snd (copy_files c)
             @ concat (map (\<lambda>pc. map (\<lambda>e. path_join (snd pc) (basename (filename e)))
                                  (filter (\<lambda>e. \<not> is_dir e \<and> fnmatch en (filename e) (fst pc)) z))
                         (copy_patterns c))
       \<and> distinct (map fst temp_to_target)
       \<and> (\<forall>w2. deploy en c temp_to_target w1 = (Inr (), w2) \<longrightarrow>
            trace w2 = trace w1
              @ map (\<lambda>s. ran en (stop_cmd s)) (systemd_services c)
              @ map (\<lambda>m. ran en [''sudo'', ''cp'', fst m, snd m]) temp_to_target
              @ map (\<lambda>s. ran en (start_cmd s)) (systemd_services c)
              @ (if systemd_services c = [] then []
                 else Sleep_ms 1500 # map (\<lambda>s. ran en (status_cmd s)) (systemd_services c)))"
proof -
  from extract_files_Inr[OF assms] obtain staged where all:
    "tmpfs w1 = tmpfs w @ staged \<and> trace w1 = trace w
       \<and> map fst temp_to_target = map fst staged
       \<and> map snd temp_to_target = expected_targets en c z
       \<and> distinct (map fst staged)
       \<and> fst ` set staged \<inter> fst ` set (tmpfs w) = {}" ..
  then have st:
    "map fst temp_to_target = map fst staged" "map snd temp_to_target = expected_targets en c z"
    "distinct (map fst staged)" by simp_all
  have "expected_targets en c z
           = map snd (copy_files c)
             @ concat (map (\<lambda>pc. map (\<lambda>e. path_join (snd pc) (basename (filename e)))
                                  (filter (\<lambda>e. \<not> is_dir e \<and> fnmatch en (filename e) (fst pc)) z))
                         (copy_patterns c))"
    by (simp add: expected_targets_def matching_entries_def pattern_target_def[abs_def])
  then have a: "map snd temp_to_target
           = map snd (copy_files c)
             @ concat (map (\<lambda>pc. map (\<lambda>e. path_join (snd pc) (basename (filename e)))
                                  (filter (\<lambda>e. \<not> is_dir e \<and> fnmatch en (filename e) (fst pc)) z))
                         (copy_patterns c))"
    using st(2) by simp
  have b: "distinct (map fst temp_to_target)" using st(1) st(3) by simp
  have cp: "(\<lambda>m. ran en (cp_cmd m)) = (\<lambda>m. ran en [''sudo'', ''cp'', fst m, snd m])"
    by (simp add: cp_cmd_def)
  have d: "\<forall>w2. deploy en c temp_to_target w1 = (Inr (), w2) \<longrightarrow>
            trace w2 = trace w1
              @ map (\<lambda>s. ran en (stop_cmd s)) (systemd_services c)
              @ map (\<lambda>m. ran en [''sudo'', ''cp'', fst m, snd m]) temp_to_target
              @ map (\<lambda>s. ran en (start_cmd s)) (systemd_services c)
              @ (if systemd_services c = [] then []
                 else Sleep_ms 1500 # map (\<lambda>s. ran en (status_cmd s)) (systemd_services c))"
  proof (intro allI impI)
    fix w2 assume "deploy en c temp_to_target w1 = (Inr (), w2)"
    from deploy_Inr_trace[OF this] show "trace w2 = trace w1
              @ map (\<lambda>s. ran en (stop_cmd s)) (systemd_services c)
              @ map (\<lambda>m. ran en [''sudo'', ''cp'', fst m, snd m]) temp_to_target
              @ map (\<lambda>s. ran en (start_cmd s)) (systemd_services c)
              @ (if systemd_services c = [] then []
                 else Sleep_ms 1500 # map (\<lambda>s. ran en (status_cmd s)) (systemd_services c))"
      unfolding cp .
  qed
  from a b d show ?thesis by (intro conjI)
qed


lemma ex_extract:
  "extract_files ex_env ex_config ex_zip \<lparr>trace = ex_events, tmpfs = []\<rparr>
     = (Inr ex_dict, \<lparr>trace = ex_events, tmpfs = ex_staged\<rparr>)"
  by code_simp

lemma ex_deploy:
  "deploy ex_env ex_config ex_dict \<lparr>trace = ex_events, tmpfs = ex_staged\<rparr>
     = (Inr (),
        \<lparr>trace = ex_events
           @ [Run [''sudo'', ''systemctl'', ''stop'', ''app.service''] 0,
              Run [''sudo'', ''systemctl'', ''stop'', ''app-worker.service''] 0,
              Run [''sudo'', ''cp'', ''/tmp/tmp'', ''/opt/app/app''] 1,
              Run [''sudo'', ''cp'', ''/tmp/tmpa'', ''/opt/app/lib/x.so''] 1,
              Run [''sudo'', ''cp'', ''/tmp/tmpaa'', ''/opt/app/lib/z.so''] 1,
              Run [''sudo'', ''cp'', ''/tmp/tmpaaa'', ''/opt/app/lib/x.so''] 1,
              Run [''sudo'', ''systemctl'', ''start'', ''app.service''] 0,
              Run [''sudo'', ''systemctl'', ''start'', ''app-worker.service''] 0,
              Sleep_ms 1500,
              Run [''sudo'', ''env'', ''PAGER='', ''systemctl'', ''status'', ''app.service''] 0,
              Run [''sudo'', ''env'', ''PAGER='', ''systemctl'', ''status'',
                   ''app-worker.service''] 0],
         tmpfs = []\<rparr>)"
  by code_simp

lemma ex_cp_events:
  "map (\<lambda>m. ran ex_env [''sudo'', ''cp'', fst m, snd m]) ex_dict
     = [Run [''sudo'', ''cp'', ''/tmp/tmp'', ''/opt/app/app''] 1,
        Run [''sudo'', ''cp'', ''/tmp/tmpa'', ''/opt/app/lib/x.so''] 1,
        Run [''sudo'', ''cp'', ''/tmp/tmpaa'', ''/opt/app/lib/z.so''] 1,
        Run [''sudo'', ''cp'', ''/tmp/tmpaaa'', ''/opt/app/lib/x.so''] 1]"
  by code_simp

lemma ex_expected_targets:
  "map snd (copy_files ex_config)
     @ concat (map (\<lambda>pc. map (\<lambda>e. path_join (snd pc) (basename (filename e)))
                          (filter (\<lambda>e. \<not> is_dir e \<and> fnmatch ex_env (filename e) (fst pc))
                             ex_zip))
                 (copy_patterns ex_config))
     = [''/opt/app/app'', ''/opt/app/lib/x.so'', ''/opt/app/lib/z.so'', ''/opt/app/lib/x.so'']"
  by code_simp

theorem recording_order_is_copy_order_witness:
  "extract_files ex_env ex_config ex_zip \<lparr>trace = ex_events, tmpfs = []\<rparr>
     = (Inr ex_dict, \<lparr>trace = ex_events, tmpfs = ex_staged\<rparr>)
   \<and> map snd ex_dict
       = [''/opt/app/app'', ''/opt/app/lib/x.so'', ''/opt/app/lib/z.so'', ''/opt/app/lib/x.so'']
   \<and> distinct (map fst ex_dict)
   \<and> (\<exists>w2 before after.
         deploy ex_env ex_config ex_dict \<lparr>trace = ex_events, tmpfs = ex_staged\<rparr> = (Inr (), w2)
       \<and> trace w2 = ex_events @ before
           @ [Run [''sudo'', ''cp'', ''/tmp/tmp'', ''/opt/app/app''] 1,
              Run [''sudo'', ''cp'', ''/tmp/tmpa'', ''/opt/app/lib/x.so''] 1,
              Run [''sudo'', ''cp'', ''/tmp/tmpaa'', ''/opt/app/lib/z.so''] 1,
              Run [''sudo'', ''cp'', ''/tmp/tmpaaa'', ''/opt/app/lib/x.so''] 1]
           @ after
       \<and> before = map (\<lambda>s. ran ex_env (stop_cmd s)) (systemd_services ex_config))"
proof -
  note t = recording_order_is_copy_order[OF ex_extract]
  from t have a: "map snd ex_dict
       = [''/opt/app/app'', ''/opt/app/lib/x.so'', ''/opt/app/lib/z.so'', ''/opt/app/lib/x.so'']"
    unfolding ex_expected_targets by (rule conjunct1)
  from t have b: "distinct (map fst ex_dict)" by (elim conjE)
  from t ex_deploy have "\<exists>w2. deploy ex_env ex_config ex_dict
          \<lparr>trace = ex_events, tmpfs = ex_staged\<rparr> = (Inr (), w2)
      \<and> trace w2 = trace \<lparr>trace = ex_events, tmpfs = ex_staged\<rparr>
              @ map (\<lambda>s. ran ex_env (stop_cmd s)) (systemd_services ex_config)
              @ map (\<lambda>m. ran ex_env [''sudo'', ''cp'', fst m, snd m]) ex_dict
              @ map (\<lambda>s. ran ex_env (start_cmd s)) (systemd_services ex_config)
              @ (if systemd_services ex_config = [] then []
                 else Sleep_ms 1500
                      # map (\<lambda>s. ran ex_env (status_cmd s)) (systemd_services ex_config))"
    by blast
  then have d: "\<exists>w2 before after.
         deploy ex_env ex_config ex_dict \<lparr>trace = ex_events, tmpfs = ex_staged\<rparr> = (Inr (), w2)
       \<and> trace w2 = ex_events @ before
           @ [Run [''sudo'', ''cp'', ''/tmp/tmp'', ''/opt/app/app''] 1,
              Run [''sudo'', ''cp'', ''/tmp/tmpa'', ''/opt/app/lib/x.so''] 1,
              Run [''sudo'', ''cp'', ''/tmp/tmpaa'', ''/opt/app/lib/z.so''] 1,
              Run [''sudo'', ''cp'', ''/tmp/tmpaaa'', ''/opt/app/lib/x.so''] 1]
           @ after
       \<and> before = map (\<lambda>s. ran ex_env (stop_cmd s)) (systemd_services ex_config)"
    unfolding ex_cp_events by (simp del: append_assoc) blast
  from ex_extract a b d show ?thesis by (intro conjI)
qed

lemma deploy_cleans:
  assumes t: "tmpfs w1 = base @ staged"
    and k: "map fst d = map fst staged"
    and dist: "distinct (map fst staged)"
    and disj: "fst ` set staged \<inter> fst ` set base = {}"
    and stop: "\<forall>s\<in>set (systemd_services c). \<exists>st. exec en (stop_cmd s) = Inr st"
    and cp: "\<forall>m\<in>set d. \<exists>st. exec en (cp_cmd m) = Inr st"
    and start: "\<forall>s\<in>set (systemd_services c). \<exists>st. exec en (start_cmd s) = Inr st"
  shows "tmpfs (snd (deploy en c d w1)) = base"
proof -
  from run_each_returns[OF stop] obtain w2 where
    r2: "run_each en stop_cmd (systemd_services c) w1 = (Inr (), w2)" by blast
  from run_each_returns[OF cp] obtain w3 where
    r3: "run_each en cp_cmd d w2 = (Inr (), w3)" by blast
  from run_each_returns[OF start] obtain w4 where
    r4: "run_each en start_cmd (systemd_services c) w3 = (Inr (), w4)" by blast
  have "tmpfs w4 = base @ staged"
    using run_each_Inr[OF r2] run_each_Inr[OF r3] run_each_Inr[OF r4] t by simp
  from unlink_each_staged[OF this dist disj] obtain w5 where
    r5: "unlink_each (map fst d) w4 = (Inr (), w5)" and t5: "tmpfs w5 = base"
    unfolding k by blast
  obtain r w6 where r6: "report en (systemd_services c) w5 = (r, w6)" by (cases "report en (systemd_services c) w5")
  from report_tmpfs[OF r6] t5 have "tmpfs w6 = base" by simp
  moreover have "deploy en c d w1 = (r, w6)"
    by (simp add: deploy_def r2 r3 r4 r5 r6)
  ultimately show ?thesis by simp
qed

lemma ex_exec_returns: "\<exists>st. exec ex_env args = Inr st"
  by (simp add: ex_env_def ex_exec_def)

lemma nul_run:
  "main nul_env w0
     = Some (Inl ValueError,
             \<lparr>trace = ex_events
                @ [Run [''sudo'', ''systemctl'', ''stop'', ''app.service''] 0,
                   Run [''sudo'', ''systemctl'', ''stop'', ''app-worker.service''] 0,
                   Run [''sudo'', ''cp'', ''/tmp/tmp'', ''/opt/app/app''] 0],
              tmpfs = ex_staged\<rparr>)"
  by code_simp

lemma run_each_raises:
  assumes "\<not> (\<forall>x\<in>set xs. \<exists>st. exec en (cmd x) = Inr st)"
  shows "\<exists>e w'. run_each en cmd xs w = (Inl e, w') \<and> tmpfs w' = tmpfs w"
  using assms
proof (induction xs arbitrary: w)
  case Nil
  then show ?case by simp
next
  case (Cons x xs)
  show ?case
  proof (cases "exec en (cmd x)")
    case (Inl e)
    then have "run_each en cmd (x # xs) w = (Inl e, w)" by (simp add: subprocess_run_def)
    then show ?thesis by simp
  next
    case (Inr st)
    then have rest: "\<not> (\<forall>x\<in>set xs. \<exists>st. exec en (cmd x) = Inr st)"
      using Cons.prems by simp
    have step: "run_each en cmd (x # xs) w = run_each en cmd xs (emit (Run (cmd x) st) w)"
      using Inr by (simp add: subprocess_run_def)
    from Cons.IH[OF rest, of "emit (Run (cmd x) st) w"] show ?thesis
      unfolding step by (simp add: emit_tmpfs)
  qed
qed

lemma deploy_raises:
  assumes "\<not> ((\<forall>s\<in>set (systemd_services c). \<exists>st. exec en (stop_cmd s) = Inr st)
           \<and> (\<forall>m\<in>set d. \<exists>st. exec en (cp_cmd m) = Inr st)
           \<and> (\<forall>s\<in>set (systemd_services c). \<exists>st. exec en (start_cmd s) = Inr st))"
  shows "(\<exists>e. fst (deploy en c d w1) = Inl e) \<and> tmpfs (snd (deploy en c d w1)) = tmpfs w1"
proof (cases "\<forall>s\<in>set (systemd_services c). \<exists>st. exec en (stop_cmd s) = Inr st")
  case False
  from run_each_raises[OF False, of w1] obtain e w2 where
    "run_each en stop_cmd (systemd_services c) w1 = (Inl e, w2)" "tmpfs w2 = tmpfs w1"
    by blast
  then show ?thesis by (simp add: deploy_def)
next
  case True
  note stop = this
  from run_each_returns[OF stop] obtain w2 where
    r2: "run_each en stop_cmd (systemd_services c) w1 = (Inr (), w2)" by blast
  have t2: "tmpfs w2 = tmpfs w1" using run_each_Inr[OF r2] by simp
  show ?thesis
  proof (cases "\<forall>m\<in>set d. \<exists>st. exec en (cp_cmd m) = Inr st")
    case False
    from run_each_raises[OF False, of w2] obtain e w3 where
      "run_each en cp_cmd d w2 = (Inl e, w3)" "tmpfs w3 = tmpfs w2"
      by blast
    then show ?thesis using r2 t2 by (simp add: deploy_def)
  next
    case True
    note cp = this
    from run_each_returns[OF cp] obtain w3 where
      r3: "run_each en cp_cmd d w2 = (Inr (), w3)" by blast
    have t3: "tmpfs w3 = tmpfs w1" using run_each_Inr[OF r3] t2 by simp
    have "\<not> (\<forall>s\<in>set (systemd_services c). \<exists>st. exec en (start_cmd s) = Inr st)"
      using assms stop cp by blast
    from run_each_raises[OF this, of w3] obtain e w4 where
      "run_each en start_cmd (systemd_services c) w3 = (Inl e, w4)" "tmpfs w4 = tmpfs w3"
      by blast
    then show ?thesis using r2 r3 t3 by (simp add: deploy_def)
  qed
qed

lemma nul_extract:
  "extract_files nul_env nul_config ex_zip \<lparr>trace = ex_events, tmpfs = []\<rparr>
     = (Inr nul_dict, \<lparr>trace = ex_events, tmpfs = ex_staged\<rparr>)"
  by code_simp

lemma nul_cp_raises:
  "exec nul_env (cp_cmd (''/tmp/tmpa'', ''/opt/app/lib'' @ [CHR 0x00] @ ''/x.so''))
     = Inl ValueError"
  by code_simp

text \<open>
  C7, as amended. Take a run whose extraction has returned the mapping; the staged files
  all exist at that moment. If every stop, copy and start command of the run can be
  started, the staged files are all deleted by the end of the run and the temporary
  directory is as it was before the extraction, whatever statuses the commands exit with
  and however the status queries end. If one of those commands cannot be started, the
  run ends with the exception it raises and the temporary directory is as the extraction
  left it: every staged file is still there.
\<close>

theorem staged_files_deleted_when_commands_start:
  assumes "extract_files en c z w = (Inr temp_to_target, w1)"
  shows "fst ` set temp_to_target \<subseteq> fst ` set (tmpfs w1)
       \<and> ((\<forall>s\<in>set (systemd_services c). \<exists>st. exec en (stop_cmd s) = Inr st)
            \<and> (\<forall>m\<in>set temp_to_target. \<exists>st. exec en (cp_cmd m) = Inr st)
            \<and> (\<forall>s\<in>set (systemd_services c). \<exists>st. exec en (start_cmd s) = Inr st)
          \<longrightarrow> tmpfs (snd (deploy en c temp_to_target w1)) = tmpfs w
            \<and> fst ` set temp_to_target
                \<inter> fst ` set (tmpfs (snd (deploy en c temp_to_target w1))) = {})
       \<and> (\<not> ((\<forall>s\<in>set (systemd_services c). \<exists>st. exec en (stop_cmd s) = Inr st)
              \<and> (\<forall>m\<in>set temp_to_target. \<exists>st. exec en (cp_cmd m) = Inr st)
              \<and> (\<forall>s\<in>set (systemd_services c). \<exists>st. exec en (start_cmd s) = Inr st))
          \<longrightarrow> (\<exists>e. fst (deploy en c temp_to_target w1) = Inl e)
            \<and> tmpfs (snd (deploy en c temp_to_target w1)) = tmpfs w1)"
proof -
  from extract_files_Inr[OF assms(1)] obtain staged where all:
    "tmpfs w1 = tmpfs w @ staged \<and> trace w1 = trace w
       \<and> map fst temp_to_target = map fst staged
       \<and> map snd temp_to_target = expected_targets en c z
       \<and> distinct (map fst staged)
       \<and> fst ` set staged \<inter> fst ` set (tmpfs w) = {}" ..
  then have t: "tmpfs w1 = tmpfs w @ staged"
    and k: "map fst temp_to_target = map fst staged"
    and dist: "distinct (map fst staged)"
    and disj: "fst ` set staged \<inter> fst ` set (tmpfs w) = {}" by simp_all
  from k have ks: "fst ` set temp_to_target = fst ` set staged"
    by (metis set_map)
  have a: "fst ` set temp_to_target \<subseteq> fst ` set (tmpfs w1)"
    unfolding ks t by auto
  have b: "(\<forall>s\<in>set (systemd_services c). \<exists>st. exec en (stop_cmd s) = Inr st)
            \<and> (\<forall>m\<in>set temp_to_target. \<exists>st. exec en (cp_cmd m) = Inr st)
            \<and> (\<forall>s\<in>set (systemd_services c). \<exists>st. exec en (start_cmd s) = Inr st)
          \<longrightarrow> tmpfs (snd (deploy en c temp_to_target w1)) = tmpfs w
            \<and> fst ` set temp_to_target
                \<inter> fst ` set (tmpfs (snd (deploy en c temp_to_target w1))) = {}"
  proof
    assume h: "(\<forall>s\<in>set (systemd_services c). \<exists>st. exec en (stop_cmd s) = Inr st)
            \<and> (\<forall>m\<in>set temp_to_target. \<exists>st. exec en (cp_cmd m) = Inr st)
            \<and> (\<forall>s\<in>set (systemd_services c). \<exists>st. exec en (start_cmd s) = Inr st)"
    then have h2: "\<forall>s\<in>set (systemd_services c). \<exists>st. exec en (stop_cmd s) = Inr st"
      and h3: "\<forall>m\<in>set temp_to_target. \<exists>st. exec en (cp_cmd m) = Inr st"
      and h4: "\<forall>s\<in>set (systemd_services c). \<exists>st. exec en (start_cmd s) = Inr st"
      by blast+
    have b1: "tmpfs (snd (deploy en c temp_to_target w1)) = tmpfs w"
      by (rule deploy_cleans[OF t k dist disj h2 h3 h4])
    have "fst ` set temp_to_target
            \<inter> fst ` set (tmpfs (snd (deploy en c temp_to_target w1))) = {}"
      unfolding b1 ks by (rule disj)
    with b1 show "tmpfs (snd (deploy en c temp_to_target w1)) = tmpfs w
            \<and> fst ` set temp_to_target
                \<inter> fst ` set (tmpfs (snd (deploy en c temp_to_target w1))) = {}" ..
  qed
  have n: "\<not> ((\<forall>s\<in>set (systemd_services c). \<exists>st. exec en (stop_cmd s) = Inr st)
              \<and> (\<forall>m\<in>set temp_to_target. \<exists>st. exec en (cp_cmd m) = Inr st)
              \<and> (\<forall>s\<in>set (systemd_services c). \<exists>st. exec en (start_cmd s) = Inr st))
          \<longrightarrow> (\<exists>e. fst (deploy en c temp_to_target w1) = Inl e)
            \<and> tmpfs (snd (deploy en c temp_to_target w1)) = tmpfs w1"
    by (rule impI) (rule deploy_raises)
  from a b n show ?thesis by (intro conjI)
qed

text \<open>In the first example every \<open>cp\<close> exits with status 1; the four staged files are
  deleted all the same. In the second the second \<open>cp\<close> cannot be started; the four staged
  files stay.\<close>

theorem staged_files_deleted_when_commands_start_witness:
  "extract_files ex_env ex_config ex_zip \<lparr>trace = ex_events, tmpfs = []\<rparr>
     = (Inr ex_dict, \<lparr>trace = ex_events, tmpfs = ex_staged\<rparr>)
   \<and> exec ex_env (cp_cmd (''/tmp/tmpa'', ''/opt/app/lib/x.so'')) = Inr 1
   \<and> tmpfs (snd (deploy ex_env ex_config ex_dict \<lparr>trace = ex_events, tmpfs = ex_staged\<rparr>)) = []
   \<and> fst ` set ex_dict \<inter> fst ` set (tmpfs (snd (deploy ex_env ex_config ex_dict
         \<lparr>trace = ex_events, tmpfs = ex_staged\<rparr>))) = {}
   \<and> extract_files nul_env nul_config ex_zip \<lparr>trace = ex_events, tmpfs = []\<rparr>
       = (Inr nul_dict, \<lparr>trace = ex_events, tmpfs = ex_staged\<rparr>)
   \<and> exec nul_env (cp_cmd (''/tmp/tmpa'', ''/opt/app/lib'' @ [CHR 0x00] @ ''/x.so''))
       = Inl ValueError
   \<and> (\<exists>e. fst (deploy nul_env nul_config nul_dict \<lparr>trace = ex_events, tmpfs = ex_staged\<rparr>)
          = Inl e)
   \<and> tmpfs (snd (deploy nul_env nul_config nul_dict \<lparr>trace = ex_events, tmpfs = ex_staged\<rparr>))
       = ex_staged"
proof -
  have h2: "\<forall>s\<in>set (systemd_services ex_config). \<exists>st. exec ex_env (stop_cmd s) = Inr st"
    using ex_exec_returns by blast
  have h3: "\<forall>m\<in>set ex_dict. \<exists>st. exec ex_env (cp_cmd m) = Inr st"
    using ex_exec_returns by blast
  have h4: "\<forall>s\<in>set (systemd_services ex_config). \<exists>st. exec ex_env (start_cmd s) = Inr st"
    using ex_exec_returns by blast
  have e: "exec ex_env (cp_cmd (''/tmp/tmpa'', ''/opt/app/lib/x.so'')) = Inr 1"
    by (simp add: ex_env_def ex_exec_def cp_cmd_def)
  from staged_files_deleted_when_commands_start[OF ex_extract] h2 h3 h4
  have p: "tmpfs (snd (deploy ex_env ex_config ex_dict
                \<lparr>trace = ex_events, tmpfs = ex_staged\<rparr>)) = []
      \<and> fst ` set ex_dict \<inter> fst ` set (tmpfs (snd (deploy ex_env ex_config ex_dict
            \<lparr>trace = ex_events, tmpfs = ex_staged\<rparr>))) = {}"
    by simp
  have "(''/tmp/tmpa'', ''/opt/app/lib'' @ [CHR 0x00] @ ''/x.so'') \<in> set nul_dict"
    by (simp add: nul_dict_def)
  then have "\<not> (\<forall>m\<in>set nul_dict. \<exists>st. exec nul_env (cp_cmd m) = Inr st)"
    using nul_cp_raises by force
  with staged_files_deleted_when_commands_start[OF nul_extract]
  have q: "(\<exists>e. fst (deploy nul_env nul_config nul_dict
                \<lparr>trace = ex_events, tmpfs = ex_staged\<rparr>) = Inl e)
      \<and> tmpfs (snd (deploy nul_env nul_config nul_dict
                \<lparr>trace = ex_events, tmpfs = ex_staged\<rparr>)) = ex_staged"
    by simp
  from ex_extract e p nul_extract nul_cp_raises q show ?thesis by blast
qed

text \<open>
  C7, as stated, fails. The target directory of the pattern rule contains a NUL character;
  \<open>subprocess.run\<close> raises \<open>ValueError\<close> for the second \<open>cp\<close> before any process
  is started, nothing catches it, and the run ends with the four staged files still in
  the temporary directory.
\<close>

theorem cleanup_skipped_counterexample:
  "main nul_env w0
     = Some (Inl ValueError,
             \<lparr>trace = ex_events
                @ [Run [''sudo'', ''systemctl'', ''stop'', ''app.service''] 0,
                   Run [''sudo'', ''systemctl'', ''stop'', ''app-worker.service''] 0,
                   Run [''sudo'', ''cp'', ''/tmp/tmp'', ''/opt/app/app''] 0],
              tmpfs = ex_staged\<rparr>)
   \<and> map fst ex_staged = [''/tmp/tmp'', ''/tmp/tmpa'', ''/tmp/tmpaa'', ''/tmp/tmpaaa'']"
  using nul_run by (simp add: ex_staged_def)

subsection \<open>The status phase\<close>

lemma quiet_step_refl: "quiet_step w w"
  by (simp add: quiet_step_def)

lemma quiet_step_same: "trace w' = trace w \<Longrightarrow> quiet_step w w'"
  by (simp add: quiet_step_def)

lemma quiet_step_trans:
  assumes "quiet_step a b" and "quiet_step b c"
  shows "quiet_step a c"
proof -
  from assms(1) obtain e1 where e1: "trace b = trace a @ e1" "\<forall>e\<in>set e1. \<not> is_report e"
    unfolding quiet_step_def by blast
  from assms(2) obtain e2 where e2: "trace c = trace b @ e2" "\<forall>e\<in>set e2. \<not> is_report e"
    unfolding quiet_step_def by blast
  have "trace c = trace a @ (e1 @ e2)" using e1(1) e2(1) by simp
  moreover have "\<forall>e\<in>set (e1 @ e2). \<not> is_report e" using e1(2) e2(2) by auto
  ultimately show ?thesis unfolding quiet_step_def by blast
qed

lemma quiet_step_emit: "\<not> is_report e \<Longrightarrow> quiet_step w (emit e w)"
  by (simp add: quiet_step_def emit_trace)

lemma quiet_step_events:
  "trace w' = trace w @ evs \<Longrightarrow> \<forall>e\<in>set evs. \<not> is_report e \<Longrightarrow> quiet_step w w'"
  unfolding quiet_step_def by blast

lemma not_report_sudo_v: "\<not> is_report (Run [''sudo'', ''-v''] st)"
  by (simp add: is_report_def)

lemma not_report_Print: "\<not> is_report (Print s)"
  by (simp add: is_report_def)

lemma not_report_HttpGet: "\<not> is_report (HttpGet url cred)"
  by (simp add: is_report_def)

lemma not_report_WriteFile: "\<not> is_report (WriteFile path content)"
  by (simp add: is_report_def)

lemma not_report_stop: "\<not> is_report (ran en (stop_cmd s))"
  by (simp add: is_report_def ran_def stop_cmd_def)

lemma not_report_cp: "\<not> is_report (ran en (cp_cmd m))"
  by (simp add: is_report_def ran_def cp_cmd_def)

lemma not_report_start: "\<not> is_report (ran en (start_cmd s))"
  by (simp add: is_report_def ran_def start_cmd_def)

lemma subprocess_run_sudo_v_quiet:
  "subprocess_run en [''sudo'', ''-v''] w = (r, w') \<Longrightarrow> quiet_step w w'"
  by (auto simp: subprocess_run_def quiet_step_refl quiet_step_emit not_report_sudo_v
      split: sum.splits)

lemma startup_quiet:
  assumes "startup en w = (r, w')"
  shows "quiet_step w w'"
proof (cases "length (argv en) \<noteq> 2")
  case True
  then show ?thesis using assms
    by (auto simp: startup_def quiet_step_refl quiet_step_emit not_report_Print
        split: if_splits)
next
  case False
  note two = this
  show ?thesis
  proof (cases "read_config en (argv en ! 1)")
    case (Inl e)
    then show ?thesis using assms two by (auto simp: startup_def quiet_step_refl)
  next
    case (Inr c)
    show ?thesis
    proof (cases "allow_root c \<noteq> Some True \<and> geteuid en = 0")
      case True
      then have "w' = emit (Print ''you aren't supposed to run this as root'') w"
        using assms two Inr by (auto simp: startup_def)
      then show ?thesis by (simp add: quiet_step_emit not_report_Print)
    next
      case False
      obtain r1 w1 where s: "subprocess_run en [''sudo'', ''-v''] w = (r1, w1)"
        by (cases "subprocess_run en [''sudo'', ''-v''] w")
      have q1: "quiet_step w w1" by (rule subprocess_run_sudo_v_quiet[OF s])
      show ?thesis
      proof (cases r1)
        case (Inl e)
        then have "w' = w1" using assms two Inr False s by (auto simp: startup_def)
        then show ?thesis using q1 by simp
      next
        case (Inr st)
        then have "w' = emit (Print ''here we go'') w1"
          using assms two \<open>read_config en (argv en ! 1) = Inr c\<close> False s
          by (auto simp: startup_def)
        then show ?thesis
          using quiet_step_trans[OF q1 quiet_step_emit[OF not_report_Print]] by simp
      qed
    qed
  qed
qed

lemma request_quiet: "request en url w = (r, w') \<Longrightarrow> quiet_step w w'"
  by (auto simp: request_def quiet_step_refl quiet_step_emit not_report_HttpGet
      split: option.splits sum.splits)

lemma fetch_loop_quiet:
  assumes "fetch_loop en r artifact_count page all_artifacts w = Some y"
  shows "quiet_step w (snd y)"
proof -
  define Q where "Q = (\<lambda>(en::env) (r::string) (artifact_count::int) (page::nat)
      (all_artifacts::artifact_record list) (w::world)
      (y::(error + artifact_record list) \<times> world). quiet_step w (snd y))"
  have "Q en r artifact_count page all_artifacts w y"
  proof (rule fetch_loop.raw_induct[where P = Q, OF _ assms(1)])
    fix f en r artifact_count page all_artifacts w y
    assume IH: "\<And>en r artifact_count page all_artifacts w y.
        f en r artifact_count page all_artifacts w = Some y
        \<Longrightarrow> Q en r artifact_count page all_artifacts w y"
      and body: "(if int (length all_artifacts) < artifact_count
          then case request en (page_url r page) w of
               (Inl e, w1) \<Rightarrow> Some (Inl e, w1)
             | (Inr response, w1) \<Rightarrow>
                 (case json response of
                    Inl e \<Rightarrow> Some (Inl e, w1)
                  | Inr resp_json \<Rightarrow>
                      (case artifacts resp_json of
                         None \<Rightarrow> Some (Inl (KeyError ''artifacts''), w1)
                       | Some extra \<Rightarrow>
                           f en r artifact_count (page + 1) (all_artifacts @ extra) w1))
          else Some (Inr all_artifacts, w)) = Some y"
    show "Q en r artifact_count page all_artifacts w y"
    proof (cases "int (length all_artifacts) < artifact_count")
      case False
      then have "y = (Inr all_artifacts, w)" using body by simp
      then show ?thesis by (simp add: Q_def quiet_step_refl)
    next
      case True
      obtain r1 w1 where rq: "request en (page_url r page) w = (r1, w1)"
        by (cases "request en (page_url r page) w")
      have q1: "quiet_step w w1" by (rule request_quiet[OF rq])
      show ?thesis
      proof (cases r1)
        case (Inl e)
        then have "y = (Inl e, w1)" using body True rq by simp
        then show ?thesis using q1 by (simp add: Q_def)
      next
        case (Inr response)
        note resp = this
        show ?thesis
        proof (cases "json response")
          case (Inl e)
          then have "y = (Inl e, w1)" using body True rq resp by simp
          then show ?thesis using q1 by (simp add: Q_def)
        next
          case (Inr resp_json)
          note js = this
          show ?thesis
          proof (cases "artifacts resp_json")
            case None
            then have "y = (Inl (KeyError ''artifacts''), w1)"
              using body True rq resp js by simp
            then show ?thesis using q1 by (simp add: Q_def)
          next
            case (Some extra)
            then have "f en r artifact_count (page + 1) (all_artifacts @ extra) w1 = Some y"
              using body True rq resp js by simp
            from IH[OF this] have "quiet_step w1 (snd y)" by (simp add: Q_def)
            from quiet_step_trans[OF q1 this] show ?thesis by (simp add: Q_def)
          qed
        qed
      qed
    qed
  qed
  then show ?thesis by (simp add: Q_def)
qed

lemma list_artifacts_quiet:
  assumes "list_artifacts en c w = Some y"
  shows "quiet_step w (snd y)"
proof (cases "repo c")
  case None
  then have "y = (Inl (KeyError ''repo''), w)" using assms by (simp add: list_artifacts_def)
  then show ?thesis by (simp add: quiet_step_refl)
next
  case (Some r)
  obtain r1 w1 where rq: "request en (artifacts_url r) w = (r1, w1)"
    by (cases "request en (artifacts_url r) w")
  have q1: "quiet_step w w1" by (rule request_quiet[OF rq])
  show ?thesis
  proof (cases r1)
    case (Inl e)
    then have "y = (Inl e, w1)" using assms Some rq by (simp add: list_artifacts_def)
    then show ?thesis using q1 by simp
  next
    case (Inr response)
    note resp = this
    show ?thesis
    proof (cases "json response")
      case (Inl e)
      then have "y = (Inl e, w1)" using assms Some rq resp by (simp add: list_artifacts_def)
      then show ?thesis using q1 by simp
    next
      case (Inr resp_json)
      note js = this
      show ?thesis
      proof (cases "total_count resp_json")
        case None
        then have "y = (Inl (KeyError ''total_count''), w1)"
          using assms Some rq resp js by (simp add: list_artifacts_def)
        then show ?thesis using q1 by simp
      next
        case (Some artifact_count)
        note tc = this
        show ?thesis
        proof (cases "artifacts resp_json")
          case None
          then have "y = (Inl (KeyError ''artifacts''), w1)"
            using assms \<open>repo c = Some r\<close> rq resp js tc by (simp add: list_artifacts_def)
          then show ?thesis using q1 by simp
        next
          case (Some all_artifacts)
          then have "fetch_loop en r artifact_count 2 all_artifacts w1 = Some y"
            using assms \<open>repo c = Some r\<close> rq resp js tc by (simp add: list_artifacts_def)
          from quiet_step_trans[OF q1 fetch_loop_quiet[OF this]] show ?thesis .
        qed
      qed
    qed
  qed
qed

lemma write_file_quiet: "write_file en path content w = (r, w') \<Longrightarrow> quiet_step w w'"
  by (auto simp: write_file_def quiet_step_refl quiet_step_emit not_report_WriteFile
      split: if_splits)

lemma download_quiet:
  assumes "download en c art w = (r, w')"
  shows "quiet_step w w'"
proof (cases "repo c")
  case None
  then have "w' = w" using assms by (simp add: download_def)
  then show ?thesis by (simp add: quiet_step_refl)
next
  case (Some rp)
  obtain r1 w1 where rq: "request en (zip_url rp (id_art art)) w = (r1, w1)"
    by (cases "request en (zip_url rp (id_art art)) w")
  have q1: "quiet_step w w1" by (rule request_quiet[OF rq])
  show ?thesis
  proof (cases r1)
    case (Inl e)
    then have "w' = w1" using assms Some rq by (simp add: download_def)
    then show ?thesis using q1 by simp
  next
    case (Inr body)
    obtain r2 w2 where wf: "(case zip_location c of
                        None \<Rightarrow> (Inr (), w1)
                      | Some path \<Rightarrow> write_file en path body w1) = (r2, w2)"
      by (cases "(case zip_location c of
                        None \<Rightarrow> (Inr (), w1)
                      | Some path \<Rightarrow> write_file en path body w1)")
    have q2: "quiet_step w1 w2"
      using wf by (auto simp: quiet_step_refl write_file_quiet split: option.splits)
    have "w' = w2"
      using assms Some rq Inr wf by (auto simp: download_def split: sum.splits)
    then show ?thesis using quiet_step_trans[OF q1 q2] by simp
  qed
qed

lemma named_temporary_file_trace:
  "named_temporary_file en content w = (r, w') \<Longrightarrow> trace w' = trace w"
  by (auto simp: named_temporary_file_def Let_def split: if_splits)

lemma copy_files_loop_trace:
  "copy_files_loop en z fs d w = (r, w') \<Longrightarrow> trace w' = trace w"
proof (induction fs arbitrary: d w)
  case Nil
  then show ?case by simp
next
  case (Cons file_config rest)
  show ?case
  proof (cases "zip_open z (fst file_config)")
    case (Inl e)
    then show ?thesis using Cons.prems by simp
  next
    case (Inr binary_file)
    obtain r1 w1 where n: "named_temporary_file en binary_file w = (r1, w1)"
      by (cases "named_temporary_file en binary_file w")
    have t1: "trace w1 = trace w" by (rule named_temporary_file_trace[OF n])
    show ?thesis
    proof (cases r1)
      case (Inl e)
      then show ?thesis using Cons.prems Inr n t1 by simp
    next
      case (Inr ntf_name)
      then have "copy_files_loop en z rest (dict_set d ntf_name (snd file_config)) w1 = (r, w')"
        using Cons.prems \<open>zip_open z (fst file_config) = Inr binary_file\<close> n by simp
      from Cons.IH[OF this] t1 show ?thesis by simp
    qed
  qed
qed

lemma zip_entries_loop_trace:
  "zip_entries_loop en z pc es d w = (r, w') \<Longrightarrow> trace w' = trace w"
proof (induction es arbitrary: d w)
  case Nil
  then show ?case by simp
next
  case (Cons zip_entry rest)
  show ?case
  proof (cases "is_dir zip_entry \<or> \<not> fnmatch en (filename zip_entry) (fst pc)")
    case True
    then have "zip_entries_loop en z pc rest d w = (r, w')"
      using Cons.prems by (auto split: if_splits)
    from Cons.IH[OF this] show ?thesis .
  next
    case False
    note m = this
    show ?thesis
    proof (cases "zip_open z (filename zip_entry)")
      case (Inl e)
      then show ?thesis using Cons.prems m by simp
    next
      case (Inr binary_file)
      obtain r1 w1 where n: "named_temporary_file en binary_file w = (r1, w1)"
        by (cases "named_temporary_file en binary_file w")
      have t1: "trace w1 = trace w" by (rule named_temporary_file_trace[OF n])
      show ?thesis
      proof (cases r1)
        case (Inl e)
        then show ?thesis using Cons.prems m Inr n t1 by simp
      next
        case (Inr ntf_name)
        then have "zip_entries_loop en z pc rest
            (dict_set d ntf_name (path_join (snd pc) (basename (filename zip_entry)))) w1
              = (r, w')"
          using Cons.prems m \<open>zip_open z (filename zip_entry) = Inr binary_file\<close> n by simp
        from Cons.IH[OF this] t1 show ?thesis by simp
      qed
    qed
  qed
qed

lemma copy_patterns_loop_trace:
  "copy_patterns_loop en z ps d w = (r, w') \<Longrightarrow> trace w' = trace w"
proof (induction ps arbitrary: d w)
  case Nil
  then show ?case by simp
next
  case (Cons pattern_config rest)
  obtain r1 w1 where l: "zip_entries_loop en z pattern_config z d w = (r1, w1)"
    by (cases "zip_entries_loop en z pattern_config z d w")
  have t1: "trace w1 = trace w" by (rule zip_entries_loop_trace[OF l])
  show ?case
  proof (cases r1)
    case (Inl e)
    then show ?thesis using Cons.prems l t1 by simp
  next
    case (Inr d1)
    then have "copy_patterns_loop en z rest d1 w1 = (r, w')" using Cons.prems l by simp
    from Cons.IH[OF this] t1 show ?thesis by simp
  qed
qed

lemma extract_files_trace:
  assumes "extract_files en c z w = (r, w')"
  shows "trace w' = trace w"
proof -
  obtain r1 w1 where f: "copy_files_loop en z (copy_files c) [] w = (r1, w1)"
    by (cases "copy_files_loop en z (copy_files c) [] w")
  have t1: "trace w1 = trace w" by (rule copy_files_loop_trace[OF f])
  show ?thesis
  proof (cases r1)
    case (Inl e)
    then show ?thesis using assms f t1 by (simp add: extract_files_def)
  next
    case (Inr d)
    then have "copy_patterns_loop en z (copy_patterns c) d w1 = (r, w')"
      using assms f by (simp add: extract_files_def)
    from copy_patterns_loop_trace[OF this] t1 show ?thesis by simp
  qed
qed

lemma run_each_quiet:
  assumes "run_each en cmd xs w = (r, w')" and "\<And>x. \<not> is_report (ran en (cmd x))"
  shows "quiet_step w w'"
proof -
  from run_each_any[OF assms(1)] obtain k where
    "trace w' = trace w @ map (\<lambda>x. ran en (cmd x)) (take k xs)" by blast
  moreover have "\<forall>e\<in>set (map (\<lambda>x. ran en (cmd x)) (take k xs)). \<not> is_report e"
    using assms(2) by auto
  ultimately show ?thesis by (rule quiet_step_events)
qed

lemma deploy_status_phase:
  assumes "deploy en c d w = (r, w')"
  shows "\<exists>evs k. trace w' = trace w @ evs
             @ take k (Sleep_ms 1500 # map (\<lambda>s. ran en (status_cmd s)) (systemd_services c))
           \<and> (\<forall>e\<in>set evs. \<not> is_report e)
           \<and> (systemd_services c = [] \<longrightarrow> k = 0)
           \<and> (systemd_services c \<noteq> [] \<and> r = Inr () \<longrightarrow> k = Suc (length (systemd_services c)))"
proof -
  let ?full = "Sleep_ms 1500 # map (\<lambda>s. ran en (status_cmd s)) (systemd_services c)"
  have early: "\<exists>evs k. trace v = trace w @ evs @ take k ?full
           \<and> (\<forall>e\<in>set evs. \<not> is_report e)
           \<and> (systemd_services c = [] \<longrightarrow> k = 0)
           \<and> (systemd_services c \<noteq> [] \<and> Inl e = Inr () \<longrightarrow> k = Suc (length (systemd_services c)))"
    if "quiet_step w v" for v and e :: error
  proof -
    from that obtain evs where "trace v = trace w @ evs" "\<forall>e\<in>set evs. \<not> is_report e"
      unfolding quiet_step_def by blast
    then have "trace v = trace w @ evs @ take 0 ?full \<and> (\<forall>e\<in>set evs. \<not> is_report e)
           \<and> (systemd_services c = [] \<longrightarrow> (0::nat) = 0)
           \<and> (systemd_services c \<noteq> [] \<and> Inl e = Inr ()
                \<longrightarrow> (0::nat) = Suc (length (systemd_services c)))"
      by simp
    then show ?thesis by blast
  qed
  obtain r1 w1 where p1: "run_each en stop_cmd (systemd_services c) w = (r1, w1)"
    by (cases "run_each en stop_cmd (systemd_services c) w")
  have q1: "quiet_step w w1" by (rule run_each_quiet[OF p1 not_report_stop])
  show ?thesis
  proof (cases r1)
    case (Inl e)
    then have "r = Inl e" "w' = w1" using assms p1 by (simp_all add: deploy_def)
    then show ?thesis using early[OF q1, of e] by simp
  next
    case (Inr u1)
    note s1 = this
    obtain r2 w2 where p2: "run_each en cp_cmd d w1 = (r2, w2)"
      by (cases "run_each en cp_cmd d w1")
    have q2: "quiet_step w w2"
      by (rule quiet_step_trans[OF q1 run_each_quiet[OF p2 not_report_cp]])
    show ?thesis
    proof (cases r2)
      case (Inl e)
      then have "r = Inl e" "w' = w2" using assms p1 s1 p2 by (simp_all add: deploy_def)
      then show ?thesis using early[OF q2, of e] by simp
    next
      case (Inr u2)
      note s2 = this
      obtain r3 w3 where p3: "run_each en start_cmd (systemd_services c) w2 = (r3, w3)"
        by (cases "run_each en start_cmd (systemd_services c) w2")
      have q3: "quiet_step w w3"
        by (rule quiet_step_trans[OF q2 run_each_quiet[OF p3 not_report_start]])
      show ?thesis
      proof (cases r3)
        case (Inl e)
        then have "r = Inl e" "w' = w3"
          using assms p1 s1 p2 s2 p3 by (simp_all add: deploy_def)
        then show ?thesis using early[OF q3, of e] by simp
      next
        case (Inr u3)
        note s3 = this
        obtain r4 w4 where p4: "unlink_each (map fst d) w3 = (r4, w4)"
          by (cases "unlink_each (map fst d) w3")
        have q4: "quiet_step w w4"
          by (rule quiet_step_trans[OF q3 quiet_step_same[OF unlink_each_trace[OF p4]]])
        show ?thesis
        proof (cases r4)
          case (Inl e)
          then have "r = Inl e" "w' = w4"
            using assms p1 s1 p2 s2 p3 s3 p4 by (simp_all add: deploy_def)
          then show ?thesis using early[OF q4, of e] by simp
        next
          case (Inr u4)
          then have p5: "report en (systemd_services c) w4 = (r, w')"
            using assms p1 s1 p2 s2 p3 s3 p4 by (simp add: deploy_def)
          from q4 obtain evs where e4: "trace w4 = trace w @ evs"
            and ne: "\<forall>e\<in>set evs. \<not> is_report e"
            unfolding quiet_step_def by blast
          show ?thesis
          proof (cases "systemd_services c = []")
            case True
            then have "w' = w4" using p5 by (simp add: report_def)
            then have "trace w' = trace w @ evs @ take 0 ?full" using e4 by simp
            then show ?thesis using ne True by blast
          next
            case False
            then have p6: "run_each en status_cmd (systemd_services c) (emit (Sleep_ms 1500) w4)
                = (r, w')"
              using p5 by (simp add: report_def)
            show ?thesis
            proof (cases r)
              case (Inl e)
              from run_each_any[OF p6] obtain k where
                "trace w' = trace (emit (Sleep_ms 1500) w4)
                   @ map (\<lambda>s. ran en (status_cmd s)) (take k (systemd_services c))"
                by blast
              then have "trace w' = trace w @ evs @ take (Suc k) ?full"
                using e4 by (simp add: emit_trace take_map)
              then show ?thesis using ne False Inl by blast
            next
              case (Inr u)
              then have "run_each en status_cmd (systemd_services c) (emit (Sleep_ms 1500) w4)
                = (Inr (), w')" using p6 by simp
              from run_each_Inr[OF this]
              have "trace w' = trace w @ evs @ take (Suc (length (systemd_services c))) ?full"
                using e4 by (simp add: emit_trace)
              then show ?thesis using ne False by blast
            qed
          qed
        qed
      qed
    qed
  qed
qed

lemma after_listing_status_phase:
  assumes "after_listing en c all_artifacts w = (r, w')"
  shows "\<exists>evs k. trace w' = trace w @ evs
             @ take k (Sleep_ms 1500 # map (\<lambda>s. ran en (status_cmd s)) (systemd_services c))
           \<and> (\<forall>e\<in>set evs. \<not> is_report e)
           \<and> (systemd_services c = [] \<longrightarrow> k = 0)
           \<and> (systemd_services c \<noteq> [] \<and> r = Inr () \<longrightarrow> k = Suc (length (systemd_services c)))"
proof -
  let ?full = "Sleep_ms 1500 # map (\<lambda>s. ran en (status_cmd s)) (systemd_services c)"
  have early: "\<exists>evs k. trace v = trace w @ evs @ take k ?full
           \<and> (\<forall>e\<in>set evs. \<not> is_report e)
           \<and> (systemd_services c = [] \<longrightarrow> k = 0)
           \<and> (systemd_services c \<noteq> [] \<and> Inl e = Inr () \<longrightarrow> k = Suc (length (systemd_services c)))"
    if "quiet_step w v" for v and e :: error
  proof -
    from that obtain evs where "trace v = trace w @ evs" "\<forall>e\<in>set evs. \<not> is_report e"
      unfolding quiet_step_def by blast
    then have "trace v = trace w @ evs @ take 0 ?full \<and> (\<forall>e\<in>set evs. \<not> is_report e)
           \<and> (systemd_services c = [] \<longrightarrow> (0::nat) = 0)
           \<and> (systemd_services c \<noteq> [] \<and> Inl e = Inr ()
                \<longrightarrow> (0::nat) = Suc (length (systemd_services c)))"
      by simp
    then show ?thesis by blast
  qed
  show ?thesis
  proof (cases "select_artifact c all_artifacts")
    case (Inl e)
    then have "r = Inl e" "w' = w" using assms by (simp_all add: after_listing_def)
    then show ?thesis using early[OF quiet_step_refl, of e] by simp
  next
    case (Inr art)
    note sel = this
    obtain r1 w1 where p1: "download en c art w = (r1, w1)"
      by (cases "download en c art w")
    have q1: "quiet_step w w1" by (rule download_quiet[OF p1])
    show ?thesis
    proof (cases r1)
      case (Inl e)
      then have "r = Inl e" "w' = w1" using assms sel p1 by (simp_all add: after_listing_def)
      then show ?thesis using early[OF q1, of e] by simp
    next
      case (Inr response_zip)
      note dl = this
      obtain r2 w2 where p2: "extract_files en c response_zip w1 = (r2, w2)"
        by (cases "extract_files en c response_zip w1")
      have q2: "quiet_step w w2"
        by (rule quiet_step_trans[OF q1 quiet_step_same[OF extract_files_trace[OF p2]]])
      show ?thesis
      proof (cases r2)
        case (Inl e)
        then have "r = Inl e" "w' = w2"
          using assms sel p1 dl p2 by (simp_all add: after_listing_def)
        then show ?thesis using early[OF q2, of e] by simp
      next
        case (Inr temp_to_target)
        then have "deploy en c temp_to_target w2 = (r, w')"
          using assms sel p1 dl p2 by (simp add: after_listing_def)
        from deploy_status_phase[OF this] obtain evs2 k where d:
          "trace w' = trace w2 @ evs2 @ take k ?full"
          "\<forall>e\<in>set evs2. \<not> is_report e"
          "systemd_services c = [] \<longrightarrow> k = 0"
          "systemd_services c \<noteq> [] \<and> r = Inr () \<longrightarrow> k = Suc (length (systemd_services c))"
          by blast
        from q2 obtain evs1 where e1: "trace w2 = trace w @ evs1"
          "\<forall>e\<in>set evs1. \<not> is_report e"
          unfolding quiet_step_def by blast
        have "trace w' = trace w @ (evs1 @ evs2) @ take k ?full" using d(1) e1(1) by simp
        moreover have "\<forall>e\<in>set (evs1 @ evs2). \<not> is_report e" using d(2) e1(2) by auto
        ultimately show ?thesis using d(3) d(4) by blast
      qed
    qed
  qed
qed

lemma main_status_phase:
  assumes "startup en ws = (Inr c, w1)" and "main en ws = Some (r, w')"
  shows "\<exists>evs k. trace w' = trace ws @ evs
             @ take k (Sleep_ms 1500 # map (\<lambda>s. ran en (status_cmd s)) (systemd_services c))
           \<and> (\<forall>e\<in>set evs. \<not> is_report e)
           \<and> (systemd_services c = [] \<longrightarrow> k = 0)
           \<and> (systemd_services c \<noteq> [] \<and> r = Inr () \<longrightarrow> k = Suc (length (systemd_services c)))"
proof -
  let ?full = "Sleep_ms 1500 # map (\<lambda>s. ran en (status_cmd s)) (systemd_services c)"
  have q1: "quiet_step ws w1" by (rule startup_quiet[OF assms(1)])
  from assms obtain y where l: "list_artifacts en c w1 = Some y"
    by (cases "list_artifacts en c w1") (simp_all add: main_def)
  obtain r2 w2 where y: "y = (r2, w2)" by (cases y)
  have q2: "quiet_step ws w2"
    using quiet_step_trans[OF q1 list_artifacts_quiet[OF l]] y by simp
  from q2 obtain evs1 where e1: "trace w2 = trace ws @ evs1"
    "\<forall>e\<in>set evs1. \<not> is_report e"
    unfolding quiet_step_def by blast
  show ?thesis
  proof (cases r2)
    case (Inl e)
    then have "r = Inl e" "w' = w2" using assms l y by (simp_all add: main_def)
    then have "trace w' = trace ws @ evs1 @ take 0 ?full
           \<and> (\<forall>e\<in>set evs1. \<not> is_report e)
           \<and> (systemd_services c = [] \<longrightarrow> (0::nat) = 0)
           \<and> (systemd_services c \<noteq> [] \<and> r = Inr ()
                \<longrightarrow> (0::nat) = Suc (length (systemd_services c)))"
      using e1 by simp
    then show ?thesis by blast
  next
    case (Inr all_artifacts)
    then have "after_listing en c all_artifacts w2 = (r, w')"
      using assms l y by (simp add: main_def)
    from after_listing_status_phase[OF this] obtain evs2 k where d:
      "trace w' = trace w2 @ evs2 @ take k ?full"
      "\<forall>e\<in>set evs2. \<not> is_report e"
      "systemd_services c = [] \<longrightarrow> k = 0"
      "systemd_services c \<noteq> [] \<and> r = Inr () \<longrightarrow> k = Suc (length (systemd_services c))"
      by blast
    have "trace w' = trace ws @ (evs1 @ evs2) @ take k ?full" using d(1) e1(1) by simp
    moreover have "\<forall>e\<in>set (evs1 @ evs2). \<not> is_report e" using d(2) e1(2) by auto
    ultimately show ?thesis using d(3) d(4) by blast
  qed
qed

lemma ex_startup: "startup ex_env w0 = (Inr ex_config, w_started)"
  by code_simp

lemma quiet_startup: "startup quiet_env w0 = (Inr quiet_config, w_started)"
  by code_simp

lemma ex_run:
  "main ex_env w0
     = Some (Inr (),
        \<lparr>trace = ex_events
           @ [Run [''sudo'', ''systemctl'', ''stop'', ''app.service''] 0,
              Run [''sudo'', ''systemctl'', ''stop'', ''app-worker.service''] 0,
              Run [''sudo'', ''cp'', ''/tmp/tmp'', ''/opt/app/app''] 1,
              Run [''sudo'', ''cp'', ''/tmp/tmpa'', ''/opt/app/lib/x.so''] 1,
              Run [''sudo'', ''cp'', ''/tmp/tmpaa'', ''/opt/app/lib/z.so''] 1,
              Run [''sudo'', ''cp'', ''/tmp/tmpaaa'', ''/opt/app/lib/x.so''] 1,
              Run [''sudo'', ''systemctl'', ''start'', ''app.service''] 0,
              Run [''sudo'', ''systemctl'', ''start'', ''app-worker.service''] 0,
              Sleep_ms 1500,
              Run [''sudo'', ''env'', ''PAGER='', ''systemctl'', ''status'', ''app.service''] 0,
              Run [''sudo'', ''env'', ''PAGER='', ''systemctl'', ''status'',
                   ''app-worker.service''] 0],
         tmpfs = []\<rparr>)"
  by code_simp

lemma quiet_run:
  "main quiet_env w0
     = Some (Inr (),
        \<lparr>trace = ex_events
           @ [Run [''sudo'', ''cp'', ''/tmp/tmp'', ''/opt/app/app''] 1,
              Run [''sudo'', ''cp'', ''/tmp/tmpa'', ''/opt/app/lib/x.so''] 1,
              Run [''sudo'', ''cp'', ''/tmp/tmpaa'', ''/opt/app/lib/z.so''] 1,
              Run [''sudo'', ''cp'', ''/tmp/tmpaaa'', ''/opt/app/lib/x.so''] 1],
         tmpfs = []\<rparr>)"
  by code_simp

lemma ex_status_events:
  "Sleep_ms 1500 # map (\<lambda>s. ran ex_env (status_cmd s)) (systemd_services ex_config)
     = [Sleep_ms 1500,
        Run [''sudo'', ''env'', ''PAGER='', ''systemctl'', ''status'', ''app.service''] 0,
        Run [''sudo'', ''env'', ''PAGER='', ''systemctl'', ''status'', ''app-worker.service''] 0]"
  by code_simp

text \<open>
  C9. Take a run that has loaded its configuration and ends, with any outcome. The delay
  and the status queries are the events that \<open>is_report\<close> recognises. If the service list
  is empty, the run adds no such event to the trace: no delay, no status query. If the
  list is not empty and the run returns normally, the trace ends with one delay of 1.5
  seconds followed by one status query per service in list order, and no delay and no
  status query comes before them. In every case the delay and the status queries that
  did happen are an initial part of that sequence and come last.
\<close>

theorem status_phase_only_with_services:
  assumes "startup en ws = (Inr c, w1)" and "main en ws = Some (r, w')"
  shows "is_report (Sleep_ms 1500)
       \<and> (\<forall>s. is_report (ran en (status_cmd s)))
       \<and> (systemd_services c = [] \<longrightarrow>
            (\<exists>evs. trace w' = trace ws @ evs \<and> (\<forall>e\<in>set evs. \<not> is_report e)))
       \<and> (systemd_services c \<noteq> [] \<and> r = Inr () \<longrightarrow>
            (\<exists>evs. trace w' = trace ws @ evs
                 @ Sleep_ms 1500 # map (\<lambda>s. ran en (status_cmd s)) (systemd_services c)
               \<and> (\<forall>e\<in>set evs. \<not> is_report e)))
       \<and> (\<exists>evs k. trace w' = trace ws @ evs
                 @ take k (Sleep_ms 1500 # map (\<lambda>s. ran en (status_cmd s)) (systemd_services c))
               \<and> (\<forall>e\<in>set evs. \<not> is_report e))"
proof -
  let ?full = "Sleep_ms 1500 # map (\<lambda>s. ran en (status_cmd s)) (systemd_services c)"
  from main_status_phase[OF assms] obtain evs k where d:
    "trace w' = trace ws @ evs @ take k ?full"
    "\<forall>e\<in>set evs. \<not> is_report e"
    "systemd_services c = [] \<longrightarrow> k = 0"
    "systemd_services c \<noteq> [] \<and> r = Inr () \<longrightarrow> k = Suc (length (systemd_services c))"
    by blast
  have a: "is_report (Sleep_ms 1500)" by (simp add: is_report_def)
  have b: "\<forall>s. is_report (ran en (status_cmd s))"
    by (simp add: is_report_def ran_def status_cmd_def)
  have e: "systemd_services c = [] \<longrightarrow>
            (\<exists>evs. trace w' = trace ws @ evs \<and> (\<forall>e\<in>set evs. \<not> is_report e))"
  proof
    assume "systemd_services c = []"
    then have "trace w' = trace ws @ evs" using d(1) d(3) by simp
    then show "\<exists>evs. trace w' = trace ws @ evs \<and> (\<forall>e\<in>set evs. \<not> is_report e)"
      using d(2) by blast
  qed
  have f: "systemd_services c \<noteq> [] \<and> r = Inr () \<longrightarrow>
            (\<exists>evs. trace w' = trace ws @ evs @ ?full \<and> (\<forall>e\<in>set evs. \<not> is_report e))"
  proof
    assume "systemd_services c \<noteq> [] \<and> r = Inr ()"
    then have "k = Suc (length (systemd_services c))" using d(4) by simp
    then have "trace w' = trace ws @ evs @ ?full" using d(1) by simp
    then show "\<exists>evs. trace w' = trace ws @ evs @ ?full \<and> (\<forall>e\<in>set evs. \<not> is_report e)"
      using d(2) by blast
  qed
  have g: "\<exists>evs k. trace w' = trace ws @ evs @ take k ?full \<and> (\<forall>e\<in>set evs. \<not> is_report e)"
    using d(1) d(2) by blast
  from a b e f g show ?thesis by (intro conjI)
qed

text \<open>The example run without services adds no delay and no status query; the example
  run with its two services ends with the delay and the two queries.\<close>

theorem status_phase_only_with_services_witness:
  "startup quiet_env w0 = (Inr quiet_config, w_started)
   \<and> systemd_services quiet_config = []
   \<and> (\<exists>w'. main quiet_env w0 = Some (Inr (), w')
         \<and> (\<exists>evs. trace w' = trace w0 @ evs \<and> (\<forall>e\<in>set evs. \<not> is_report e)))
   \<and> startup ex_env w0 = (Inr ex_config, w_started)
   \<and> systemd_services ex_config = [''app.service'', ''app-worker.service'']
   \<and> (\<exists>w'. main ex_env w0 = Some (Inr (), w')
         \<and> (\<exists>evs. trace w' = trace w0 @ evs
               @ [Sleep_ms 1500,
                  Run [''sudo'', ''env'', ''PAGER='', ''systemctl'', ''status'', ''app.service''] 0,
                  Run [''sudo'', ''env'', ''PAGER='', ''systemctl'', ''status'',
                       ''app-worker.service''] 0]
             \<and> (\<forall>e\<in>set evs. \<not> is_report e)))"
proof -
  have s1: "systemd_services quiet_config = []" by (simp add: quiet_config_def)
  have s2: "systemd_services ex_config = [''app.service'', ''app-worker.service'']"
    by (simp add: ex_config_def)
  from status_phase_only_with_services[OF quiet_startup quiet_run] s1
  have q: "\<exists>w'. main quiet_env w0 = Some (Inr (), w')
         \<and> (\<exists>evs. trace w' = trace w0 @ evs \<and> (\<forall>e\<in>set evs. \<not> is_report e))"
    using quiet_run by (simp add: w0_def)
  have ne: "systemd_services ex_config \<noteq> [] \<and> (Inr () :: error + unit) = Inr ()"
    using s2 by simp
  from status_phase_only_with_services[OF ex_startup ex_run] ne
  have "\<exists>evs. trace \<lparr>trace = ex_events
           @ [Run [''sudo'', ''systemctl'', ''stop'', ''app.service''] 0,
              Run [''sudo'', ''systemctl'', ''stop'', ''app-worker.service''] 0,
              Run [''sudo'', ''cp'', ''/tmp/tmp'', ''/opt/app/app''] 1,
              Run [''sudo'', ''cp'', ''/tmp/tmpa'', ''/opt/app/lib/x.so''] 1,
              Run [''sudo'', ''cp'', ''/tmp/tmpaa'', ''/opt/app/lib/z.so''] 1,
              Run [''sudo'', ''cp'', ''/tmp/tmpaaa'', ''/opt/app/lib/x.so''] 1,
              Run [''sudo'', ''systemctl'', ''start'', ''app.service''] 0,
              Run [''sudo'', ''systemctl'', ''start'', ''app-worker.service''] 0,
              Sleep_ms 1500,
              Run [''sudo'', ''env'', ''PAGER='', ''systemctl'', ''status'', ''app.service''] 0,
              Run [''sudo'', ''env'', ''PAGER='', ''systemctl'', ''status'',
                   ''app-worker.service''] 0],
         tmpfs = []\<rparr> = trace w0 @ evs
               @ Sleep_ms 1500 # map (\<lambda>s. ran ex_env (status_cmd s)) (systemd_services ex_config)
             \<and> (\<forall>e\<in>set evs. \<not> is_report e)"
    by blast
  then have e: "\<exists>w'. main ex_env w0 = Some (Inr (), w')
         \<and> (\<exists>evs. trace w' = trace w0 @ evs
               @ [Sleep_ms 1500,
                  Run [''sudo'', ''env'', ''PAGER='', ''systemctl'', ''status'', ''app.service''] 0,
                  Run [''sudo'', ''env'', ''PAGER='', ''systemctl'', ''status'',
                       ''app-worker.service''] 0]
             \<and> (\<forall>e\<in>set evs. \<not> is_report e))"
    unfolding ex_status_events ex_run by simp
  from quiet_startup s1 q ex_startup s2 e show ?thesis by (intro conjI)
qed

end
